theory Spec2Isabelle
  imports Main "HOL-Library.List_Lexorder"
begin

section \<open>JSON values as the comparator sees them\<close>

text \<open>
  A string is the list of its UTF-16 code units, which is what \<^verbatim>\<open>trim\<close>, \<^verbatim>\<open>sort\<close> and
  \<^verbatim>\<open>JSON.stringify\<close> look at.  \<open>lit\<close> writes a string of ASCII characters.
\<close>

type_synonym jsString = "int list"

definition lit :: "string \<Rightarrow> jsString" where
  "lit s = map of_char s"

text \<open>
  The comparator works on the values produced by \<^verbatim>\<open>JSON.parse\<close>.  Numbers are restricted to
  integers (printed in plain decimal); an object is the list of its own properties in
  the order \<^verbatim>\<open>Object.keys\<close> lists them (index-like names first, then the others as the
  text has them); an array is an object whose own enumerable properties are its indices.
\<close>

datatype json =
    JNull
  | JBool bool
  | JNum int
  | JStr jsString
  | JArr "json list"
  | JObj "(jsString \<times> json) list"

function showNat :: "nat \<Rightarrow> jsString" where
  "showNat n =
     (if n < 10 then [48 + int n]
      else showNat (n div 10) @ [48 + int (n mod 10)])"
  by pat_completeness auto
termination
  by (relation "measure id") auto

declare showNat.simps [simp del]

definition showInt :: "int \<Rightarrow> jsString" where
  "showInt i = (if i < 0 then lit ''-'' @ showNat (nat (- i)) else showNat (nat i))"

text \<open>\<^verbatim>\<open>typeof item === "object" && item !== null\<close>: true of objects and of arrays.\<close>

fun isObject :: "json \<Rightarrow> bool" where
  "isObject (JObj fs) = True"
| "isObject (JArr xs) = True"
| "isObject v = False"

text \<open>The own enumerable properties, in the order \<^verbatim>\<open>Object.keys\<close> lists them.\<close>

fun ownFields :: "json \<Rightarrow> (jsString \<times> json) list" where
  "ownFields (JObj fs) = fs"
| "ownFields (JArr xs) = zip (map showNat [0..<length xs]) xs"
| "ownFields v = []"

definition objectKeys :: "json \<Rightarrow> jsString list" where
  "objectKeys v = map fst (ownFields v)"

text \<open>
  \<^verbatim>\<open>obj[key]\<close> for an own property of a parsed value, \<open>None\<close> where \<^verbatim>\<open>hasOwnProperty\<close> is
  false.  An array owns \<^verbatim>\<open>length\<close> besides its indices.  What a parsed value inherits from
  \<^verbatim>\<open>Object.prototype\<close> or \<^verbatim>\<open>Array.prototype\<close> is never a string, so where the comparator reads
  a key value without asking for ownership first, an inherited value finds nothing in a
  lookup keyed by strings, as an absent one does.
\<close>

fun getProp :: "json \<Rightarrow> jsString \<Rightarrow> json option" where
  "getProp (JArr xs) k =
     (if k = lit ''length'' then Some (JNum (int (length xs)))
      else map_of (ownFields (JArr xs)) k)"
| "getProp v k = map_of (ownFields v) k"

fun joinWith :: "jsString \<Rightarrow> jsString list \<Rightarrow> jsString" where
  "joinWith sep [] = []"
| "joinWith sep [x] = x"
| "joinWith sep (x # y # ys) = x @ sep @ joinWith sep (y # ys)"

text \<open>
  \<^verbatim>\<open>Object.keys(obj).sort().join(",")\<close>; the default \<^verbatim>\<open>sort\<close> orders strings by their code
  units.
\<close>

definition getObjectSignature :: "json \<Rightarrow> jsString" where
  "getObjectSignature obj = joinWith (lit '','') (sort (objectKeys obj))"

text \<open>
  \<^verbatim>\<open>Map.prototype.set\<close>, and the definition of a property of an insertion-ordered object
  (as an object spread does it): an existing key keeps its place, a new key goes last.
\<close>

fun objSet :: "('k \<times> 'v) list \<Rightarrow> 'k \<Rightarrow> 'v \<Rightarrow> ('k \<times> 'v) list" where
  "objSet [] k v = [(k, v)]"
| "objSet ((k', v') # fs) k v =
     (if k' = k then (k, v) # fs else (k', v') # objSet fs k v)"

definition objDelete :: "('k \<times> 'v) list \<Rightarrow> 'k \<Rightarrow> ('k \<times> 'v) list" where
  "objDelete fs k = filter (\<lambda>p. fst p \<noteq> k) fs"

text \<open>\<^verbatim>\<open>Set.prototype.add\<close> and \<^verbatim>\<open>new Set(xs)\<close>: first occurrences, in order.\<close>

definition setAdd :: "'a list \<Rightarrow> 'a \<Rightarrow> 'a list" where
  "setAdd s x = (if x \<in> set s then s else s @ [x])"

definition newSet :: "'a list \<Rightarrow> 'a list" where
  "newSet xs = foldl setAdd [] xs"

text \<open>
  \<^verbatim>\<open>s.trim() === ""\<close>: every code unit of \<open>s\<close> is white space or a line terminator of the
  language (TAB, LF, VT, FF, CR, SP, NBSP, U+1680, U+2000 to U+200A, LS, PS, U+202F,
  U+205F, U+3000, U+FEFF).
\<close>

definition isWhiteSpace :: "int \<Rightarrow> bool" where
  "isWhiteSpace c =
     (c \<in> {0x09, 0x0A, 0x0B, 0x0C, 0x0D, 0x20, 0xA0, 0x1680, 0x2028, 0x2029, 0x202F, 0x205F,
            0x3000, 0xFEFF}
      \<or> (0x2000 \<le> c \<and> c \<le> 0x200A))"

definition trimIsEmpty :: "jsString \<Rightarrow> bool" where
  "trimIsEmpty s = list_all isWhiteSpace s"

section \<open>What a plain object inherits\<close>

text \<open>
  The key selections, the three parts of a change set and the entries of the result are
  plain objects, and the comparator reads them by \<^verbatim>\<open>object[name]\<close> without asking for
  ownership.  Where the object has no own property of that name, the read finds the
  members of \<^verbatim>\<open>Object.prototype\<close>: eleven native functions, and under \<^verbatim>\<open>__proto__\<close> the
  prototype itself.  All of them are truthy and none is a string.  \<open>inheritedString name\<close>
  is the string that such a value converts to, both as a property name and in a template
  literal (a native function as V8 prints it), and \<open>None\<close> where nothing is inherited
  under the name.
\<close>

definition functionMembers :: "jsString list" where
  "functionMembers =
     [lit ''constructor'', lit ''__defineGetter__'', lit ''__defineSetter__'',
      lit ''hasOwnProperty'', lit ''__lookupGetter__'', lit ''__lookupSetter__'',
      lit ''isPrototypeOf'', lit ''propertyIsEnumerable'', lit ''toString'', lit ''valueOf'',
      lit ''toLocaleString'']"

definition inheritedString :: "jsString \<Rightarrow> jsString option" where
  "inheritedString name =
     (if name = lit ''__proto__'' then Some (lit ''[object Object]'')
      else if name = lit ''constructor'' then Some (lit ''function Object() { [native code] }'')
      else if name \<in> set functionMembers
      then Some (lit ''function '' @ name @ lit ''() { [native code] }'')
      else None)"

text \<open>
  The assignment \<^verbatim>\<open>object[name] = value\<close> on a plain object without an own property
  \<^verbatim>\<open>__proto__\<close>: under that name it goes to the setter of \<^verbatim>\<open>Object.prototype\<close>, which changes
  the prototype or does nothing and leaves the own properties as they are; under every
  other name it defines or overwrites an own property.
\<close>

definition assign :: "(jsString \<times> 'v) list \<Rightarrow> jsString \<Rightarrow> 'v \<Rightarrow> (jsString \<times> 'v) list" where
  "assign fs name v = (if name = lit ''__proto__'' then fs else objSet fs name v)"

section \<open>Deep equality\<close>

text \<open>
  lodash's \<^verbatim>\<open>isEqual\<close> on parsed JSON: objects are equal when they have the same number of
  own keys and every key of the first is a key of the second with an equal value; arrays
  are compared element by element; an array never equals a plain object; everything else
  is compared by value.
\<close>

fun isEqual :: "json \<Rightarrow> json \<Rightarrow> bool"
  and isEqualFields :: "(jsString \<times> json) list \<Rightarrow> (jsString \<times> json) list \<Rightarrow> bool"
  and isEqualList :: "json list \<Rightarrow> json list \<Rightarrow> bool" where
  "isEqual (JObj fs) w =
     (case w of JObj gs \<Rightarrow> length fs = length gs \<and> isEqualFields fs gs | _ \<Rightarrow> False)"
| "isEqual (JArr xs) w = (case w of JArr ys \<Rightarrow> isEqualList xs ys | _ \<Rightarrow> False)"
| "isEqual JNull w = (w = JNull)"
| "isEqual (JBool b) w = (w = JBool b)"
| "isEqual (JNum n) w = (w = JNum n)"
| "isEqual (JStr s) w = (w = JStr s)"
| "isEqualFields [] gs = True"
| "isEqualFields ((k, v) # fs) gs =
     ((case map_of gs k of None \<Rightarrow> False | Some w \<Rightarrow> isEqual v w) \<and> isEqualFields fs gs)"
| "isEqualList [] ys = (ys = [])"
| "isEqualList (x # xs) ys =
     (case ys of [] \<Rightarrow> False | y # ys' \<Rightarrow> isEqual x y \<and> isEqualList xs ys')"

text \<open>\<^verbatim>\<open>isEqual(a[k], b[k])\<close> where either read may be \<^verbatim>\<open>undefined\<close>.\<close>

fun isEqualOpt :: "json option \<Rightarrow> json option \<Rightarrow> bool" where
  "isEqualOpt None None = True"
| "isEqualOpt (Some v) (Some w) = isEqual v w"
| "isEqualOpt a b = False"

text \<open>
  What \<^verbatim>\<open>JSON.parse\<close> can return: no object lists a key twice, at any depth.
\<close>

fun wellFormed :: "json \<Rightarrow> bool"
  and wellFormedFields :: "(jsString \<times> json) list \<Rightarrow> bool"
  and wellFormedList :: "json list \<Rightarrow> bool" where
  "wellFormed (JObj fs) = (distinct (map fst fs) \<and> wellFormedFields fs)"
| "wellFormed (JArr xs) = wellFormedList xs"
| "wellFormed v = True"
| "wellFormedFields [] = True"
| "wellFormedFields (f # fs) = (wellFormed (snd f) \<and> wellFormedFields fs)"
| "wellFormedList [] = True"
| "wellFormedList (x # xs) = (wellFormed x \<and> wellFormedList xs)"

section \<open>Field changes\<close>

text \<open>
  The three objects of a change set, each as the list of its own properties in the order
  in which they were set.
\<close>

record FieldChanges =
  added :: "(jsString \<times> json) list"
  removed :: "(jsString \<times> json) list"
  changed :: "(jsString \<times> (json \<times> json)) list"

definition noChanges :: FieldChanges where
  "noChanges = \<lparr>added = [], removed = [], changed = []\<rparr>"

text \<open>The body of \<^verbatim>\<open>allKeys.forEach\<close> in \<^verbatim>\<open>calculateFieldChanges\<close>.\<close>

definition fieldChangeStep :: "json \<Rightarrow> json \<Rightarrow> FieldChanges \<Rightarrow> jsString \<Rightarrow> FieldChanges" where
  "fieldChangeStep obj1 obj2 changes key =
     (case getProp obj1 key of
        None \<Rightarrow>
          (case getProp obj2 key of
             None \<Rightarrow> changes
           | Some val2 \<Rightarrow> changes\<lparr>added := assign (added changes) key val2\<rparr>)
      | Some val1 \<Rightarrow>
          (case getProp obj2 key of
             None \<Rightarrow> changes\<lparr>removed := assign (removed changes) key val1\<rparr>
           | Some val2 \<Rightarrow>
               if \<not> isEqual val1 val2
               then changes\<lparr>changed := assign (changed changes) key (val1, val2)\<rparr>
               else changes))"

definition calculateFieldChanges :: "json \<Rightarrow> json \<Rightarrow> FieldChanges" where
  "calculateFieldChanges obj1 obj2 =
     foldl (fieldChangeStep obj1 obj2) noChanges (newSet (objectKeys obj1 @ objectKeys obj2))"

section \<open>Shape analysis\<close>

record JsonObjectStructure =
  signature :: jsString
  keys :: "jsString list"
  count :: nat
  potentialKeyFields :: "jsString list"

datatype analysisError = InputNotArray | ItemNotObject

text \<open>
  One round of the loop that fills \<^verbatim>\<open>structureMap\<close>: a map from signature to the set of keys
  and the list of instances, in insertion order.
\<close>

definition structureStep ::
  "(jsString \<times> (jsString list \<times> json list)) list \<Rightarrow> json
     \<Rightarrow> (jsString \<times> (jsString list \<times> json list)) list" where
  "structureStep structureMap item =
     (if \<not> isObject item then structureMap
      else
        let sig = getObjectSignature item in
        case map_of structureMap sig of
          None \<Rightarrow>
            objSet structureMap sig
              (foldl setAdd (newSet (objectKeys item)) (objectKeys item), [item])
        | Some (ks, instances) \<Rightarrow>
            objSet structureMap sig (foldl setAdd ks (objectKeys item), instances @ [item]))"

definition isPotentialKey :: "json list \<Rightarrow> jsString \<Rightarrow> bool" where
  "isPotentialKey instances key =
     list_all
       (\<lambda>instance.
          case getProp instance key of
            Some (JStr s) \<Rightarrow> \<not> trimIsEmpty s
          | _ \<Rightarrow> False)
       instances"

definition toStructure :: "jsString \<times> (jsString list \<times> json list) \<Rightarrow> JsonObjectStructure" where
  "toStructure entry =
     (case entry of
        (sig, ks, instances) \<Rightarrow>
          \<lparr>signature = sig,
           keys = sort ks,
           count = length instances,
           potentialKeyFields =
             sort (case instances of
                     [] \<Rightarrow> []
                   | first # rest \<Rightarrow> filter (isPotentialKey instances) (objectKeys first))\<rparr>)"

text \<open>
  \<^verbatim>\<open>analyzeJsonStructures\<close> from the parsed value on (an empty or unparsable text is the
  caller's concern).  The final ordering by \<^verbatim>\<open>localeCompare\<close> is taken as the plain order
  of strings.
\<close>

definition analyzeJsonStructures :: "json \<Rightarrow> JsonObjectStructure list \<times> analysisError option" where
  "analyzeJsonStructures parsed =
     (case parsed of
        JArr items \<Rightarrow>
          if list_ex (\<lambda>item. \<not> isObject item) items then ([], Some ItemNotObject)
          else (sort_key signature (map toStructure (foldl structureStep [] items)), None)
      | _ \<Rightarrow> ([], Some InputNotArray))"

section \<open>Key selection\<close>

type_synonym SelectedKeyConfig = "jsString \<rightharpoonup> jsString"

text \<open>
  The key selections are kept as the own entries of the plain object.  \<open>selectedKey\<close> is the
  read \<^verbatim>\<open>selectedKeyConfig[sig]\<close> together with the truthiness test that follows every such
  read: \<open>None\<close> where the value is falsy (no own entry and nothing inherited, or the empty
  string), and otherwise the name of the key field.  Where the value is inherited and not
  a string it stands as the string it converts to: that string is what the comparator
  uses as a property name and prints; the value itself is kept only with a record that
  has a valid key value under it, and no record has one under an inherited value.
\<close>

definition selectedKey :: "SelectedKeyConfig \<Rightarrow> jsString \<Rightarrow> jsString option" where
  "selectedKey selectedKeyConfig sig =
     (case selectedKeyConfig sig of
        None \<Rightarrow> inheritedString sig
      | Some kf \<Rightarrow> if kf = [] then None else Some kf)"

text \<open>
  The auto-selection effect of the component.  \<^verbatim>\<open>allAnalyzedStructures\<close> takes every
  structure of the before inventory, and a structure of the after inventory where the
  signature is new or the structure held so far has no potential key field.  The
  assignment to \<^verbatim>\<open>newSelectedKeys\<close> is reached only after a falsy read, where it defines or
  overwrites an own entry under every name.
\<close>

definition mergeAfterStructure ::
  "(jsString \<times> JsonObjectStructure) list \<Rightarrow> JsonObjectStructure
     \<Rightarrow> (jsString \<times> JsonObjectStructure) list" where
  "mergeAfterStructure allAnalyzedStructures s =
     (case map_of allAnalyzedStructures (signature s) of
        None \<Rightarrow> objSet allAnalyzedStructures (signature s) s
      | Some held \<Rightarrow>
          if length (potentialKeyFields held) = 0
          then objSet allAnalyzedStructures (signature s) s
          else allAnalyzedStructures)"

definition allAnalyzedStructures ::
  "JsonObjectStructure list \<Rightarrow> JsonObjectStructure list
     \<Rightarrow> (jsString \<times> JsonObjectStructure) list" where
  "allAnalyzedStructures beforeStructures afterStructures =
     foldl mergeAfterStructure
       (foldl (\<lambda>m s. objSet m (signature s) s) [] beforeStructures)
       afterStructures"

definition autoSelectStep ::
  "SelectedKeyConfig \<Rightarrow> jsString \<times> JsonObjectStructure \<Rightarrow> SelectedKeyConfig" where
  "autoSelectStep newSelectedKeys entry =
     (let s = snd entry in
      case potentialKeyFields s of
        [candidate] \<Rightarrow>
          if selectedKey newSelectedKeys (signature s) = None
          then newSelectedKeys(signature s \<mapsto> candidate)
          else newSelectedKeys
      | _ \<Rightarrow> newSelectedKeys)"

definition resolveKeys ::
  "JsonObjectStructure list \<Rightarrow> JsonObjectStructure list \<Rightarrow> SelectedKeyConfig
     \<Rightarrow> SelectedKeyConfig" where
  "resolveKeys beforeStructures afterStructures selectedKeyConfig =
     foldl autoSelectStep selectedKeyConfig
       (allAnalyzedStructures beforeStructures afterStructures)"

section \<open>The comparison\<close>

datatype side = Before | After

datatype compareError = NotAnArray side | MissingKeySelection jsString

text \<open>
  The messages pushed on \<^verbatim>\<open>localErrors\<close>, by kind and by what their text names: the side;
  for an invalid key value the key field, the signature and the record's own value under
  the key field (\<open>None\<close> where it has none); for a duplicate the key value, the key field
  and the signature.
\<close>

datatype warning =
    SkippedNonObject side json
  | InvalidKeyValue side jsString jsString "json option"
  | DuplicateKey side jsString jsString jsString

text \<open>A value of \<^verbatim>\<open>beforeMap\<close> or \<^verbatim>\<open>afterMap\<close>.\<close>

record MapEntry =
  item :: json
  entrySignature :: jsString
  keyField :: jsString

text \<open>
  An element of \<^verbatim>\<open>newEntries\<close> or \<^verbatim>\<open>deletedEntries\<close>: the object
  \<^verbatim>\<open>{...entryItem, objectSignature, keyFieldUsed}\<close>, kept as the record it spreads and the
  two properties written over it.  \<open>entryObject\<close> is the object itself.
\<close>

record TaggedEntry =
  entryItem :: json
  objectSignature :: jsString
  keyFieldUsed :: "jsString option"

definition entryObject :: "TaggedEntry \<Rightarrow> (jsString \<times> json) list" where
  "entryObject e =
     (let tagged = objSet (ownFields (entryItem e)) (lit ''objectSignature'') (JStr (objectSignature e)) in
      case keyFieldUsed e of
        None \<Rightarrow> tagged
      | Some kf \<Rightarrow> objSet tagged (lit ''keyFieldUsed'') (JStr kf))"

record ModifiedEntry =
  keyFieldValue :: jsString
  modKeyFieldUsed :: jsString
  modObjectSignature :: jsString
  before :: json
  after :: json
  changes :: FieldChanges

record ComparisonResult =
  newEntries :: "TaggedEntry list"
  modifiedEntries :: "ModifiedEntry list"
  deletedEntries :: "TaggedEntry list"
  errors :: "warning list"

definition activeSignatures :: "json list \<Rightarrow> json list \<Rightarrow> jsString list" where
  "activeSignatures beforeData afterData =
     newSet (map getObjectSignature (filter isObject beforeData)
             @ map getObjectSignature (filter isObject afterData))"

text \<open>The validation loop: the first active signature that lacks a required selection.\<close>

definition missingKeySelection ::
  "JsonObjectStructure list \<Rightarrow> JsonObjectStructure list \<Rightarrow> SelectedKeyConfig
     \<Rightarrow> json list \<Rightarrow> json list \<Rightarrow> jsString option" where
  "missingKeySelection beforeJsonStructures afterJsonStructures selectedKeyConfig beforeData afterData =
     find
       (\<lambda>sig.
          list_ex (\<lambda>s. signature s = sig) beforeJsonStructures \<and>
          list_ex (\<lambda>s. signature s = sig) afterJsonStructures \<and>
          selectedKey selectedKeyConfig sig = None)
       (activeSignatures beforeData afterData)"

text \<open>
  The key value of an item under a key field: the property must be its own, a string, and
  not blank.
\<close>

definition validKeyValue :: "json \<Rightarrow> jsString \<Rightarrow> jsString option" where
  "validKeyValue itm kf =
     (case getProp itm kf of
        Some (JStr s) \<Rightarrow> if trimIsEmpty s then None else Some s
      | _ \<Rightarrow> None)"

text \<open>One round of the loops that fill \<^verbatim>\<open>beforeMap\<close> and \<^verbatim>\<open>afterMap\<close>.\<close>

definition populateStep ::
  "side \<Rightarrow> SelectedKeyConfig \<Rightarrow> (jsString \<rightharpoonup> MapEntry) \<times> warning list \<Rightarrow> json
     \<Rightarrow> (jsString \<rightharpoonup> MapEntry) \<times> warning list" where
  "populateStep sd selectedKeyConfig st itm =
     (case st of
        (m, localErrors) \<Rightarrow>
          (if \<not> isObject itm then (m, localErrors @ [SkippedNonObject sd itm])
           else
             (let sig = getObjectSignature itm in
              (case selectedKey selectedKeyConfig sig of
                 None \<Rightarrow> (m, localErrors)
               | Some kf \<Rightarrow>
                   (case validKeyValue itm kf of
                      None \<Rightarrow> (m, localErrors @ [InvalidKeyValue sd kf sig (getProp itm kf)])
                    | Some keyValue \<Rightarrow>
                        (m(keyValue \<mapsto> \<lparr>item = itm, entrySignature = sig, keyField = kf\<rparr>),
                         if m keyValue \<noteq> None
                         then localErrors @ [DuplicateKey sd keyValue kf sig]
                         else localErrors))))))"

definition populate ::
  "side \<Rightarrow> SelectedKeyConfig \<Rightarrow> warning list \<Rightarrow> json list
     \<Rightarrow> (jsString \<rightharpoonup> MapEntry) \<times> warning list" where
  "populate sd selectedKeyConfig localErrors items =
     foldl (populateStep sd selectedKeyConfig) (Map.empty, localErrors) items"

text \<open>
  \<^verbatim>\<open>someMap.get(item[keyField])\<close>: the keys of both maps are strings, so a value that is not
  a string finds nothing.
\<close>

definition lookupByKey :: "(jsString \<rightharpoonup> MapEntry) \<Rightarrow> json \<Rightarrow> jsString \<Rightarrow> (jsString \<times> MapEntry) option" where
  "lookupByKey m itm kf =
     (case getProp itm kf of
        Some (JStr keyValue) \<Rightarrow>
          (case m keyValue of None \<Rightarrow> None | Some entry \<Rightarrow> Some (keyValue, entry))
      | _ \<Rightarrow> None)"

text \<open>
  The change set of a matched pair, with the entry of the key field taken out of
  \<^verbatim>\<open>changed\<close> when the two key values are deeply equal.  Where \<^verbatim>\<open>changed\<close> has no own entry
  for the key field there is nothing to delete, whatever the reads through the prototype
  chain give, so only own entries are looked at.
\<close>

definition pairChanges :: "jsString \<Rightarrow> json \<Rightarrow> json \<Rightarrow> FieldChanges" where
  "pairChanges kf beforeItem afterItem =
     (let chs = calculateFieldChanges beforeItem afterItem in
      if map_of (changed chs) kf \<noteq> None \<and> isEqualOpt (getProp beforeItem kf) (getProp afterItem kf)
      then chs\<lparr>changed := objDelete (changed chs) kf\<rparr>
      else chs)"

definition hasChanges :: "FieldChanges \<Rightarrow> bool" where
  "hasChanges chs = (length (added chs) > 0 \<or> length (removed chs) > 0 \<or> length (changed chs) > 0)"

text \<open>One round of the loop over \<^verbatim>\<open>afterData\<close> that finds new and modified entries.\<close>

definition afterStep ::
  "SelectedKeyConfig \<Rightarrow> (jsString \<rightharpoonup> MapEntry) \<Rightarrow> (jsString \<rightharpoonup> MapEntry)
     \<Rightarrow> TaggedEntry list \<times> ModifiedEntry list \<times> TaggedEntry list \<Rightarrow> json
     \<Rightarrow> TaggedEntry list \<times> ModifiedEntry list \<times> TaggedEntry list" where
  "afterStep selectedKeyConfig beforeMap afterMap st itm =
     (case st of
        (news, mods, dels) \<Rightarrow>
          (if \<not> isObject itm then (news, mods, dels)
           else
            let sig = getObjectSignature itm in
            (case selectedKey selectedKeyConfig sig of
              None \<Rightarrow>
                (news @ [\<lparr>entryItem = itm, objectSignature = sig, keyFieldUsed = None\<rparr>], mods, dels)
            | Some kf \<Rightarrow>
                (case lookupByKey afterMap itm kf of
                   None \<Rightarrow> (news, mods, dels)
                 | Some (keyValue, afterEntry) \<Rightarrow>
                     (case beforeMap keyValue of
                        None \<Rightarrow>
                          (news @ [\<lparr>entryItem = item afterEntry, objectSignature = sig,
                                     keyFieldUsed = Some kf\<rparr>],
                           mods, dels)
                      | Some beforeEntry \<Rightarrow>
                          if entrySignature beforeEntry \<noteq> entrySignature afterEntry
                          then
                            (news @ [\<lparr>entryItem = item afterEntry,
                                       objectSignature = entrySignature afterEntry,
                                       keyFieldUsed = Some (keyField afterEntry)\<rparr>],
                             mods,
                             dels @ [\<lparr>entryItem = item beforeEntry,
                                       objectSignature = entrySignature beforeEntry,
                                       keyFieldUsed = Some (keyField beforeEntry)\<rparr>])
                          else if \<not> isEqual (item beforeEntry) (item afterEntry)
                          then
                            (let chs = pairChanges kf (item beforeEntry) (item afterEntry) in
                             if hasChanges chs
                             then
                               (news,
                                mods @ [\<lparr>keyFieldValue = keyValue, modKeyFieldUsed = kf,
                                          modObjectSignature = sig,
                                          before = item beforeEntry, after = item afterEntry,
                                          changes = chs\<rparr>],
                                dels)
                             else (news, mods, dels))
                          else (news, mods, dels))))))"

text \<open>One round of the loop over \<^verbatim>\<open>beforeData\<close> that finds deleted entries.\<close>

definition beforeStep ::
  "SelectedKeyConfig \<Rightarrow> (jsString \<rightharpoonup> MapEntry) \<Rightarrow> (jsString \<rightharpoonup> MapEntry) \<Rightarrow> json list
     \<Rightarrow> TaggedEntry list \<Rightarrow> json \<Rightarrow> TaggedEntry list" where
  "beforeStep selectedKeyConfig beforeMap afterMap afterData dels itm =
     (if \<not> isObject itm then dels
      else
        let sig = getObjectSignature itm in
        case selectedKey selectedKeyConfig sig of
          None \<Rightarrow>
            if \<not> list_ex (\<lambda>afterItem. isObject afterItem \<and> getObjectSignature afterItem = sig) afterData
            then dels @ [\<lparr>entryItem = itm, objectSignature = sig, keyFieldUsed = None\<rparr>]
            else dels
        | Some kf \<Rightarrow>
            (case lookupByKey beforeMap itm kf of
               None \<Rightarrow> dels
             | Some (keyValue, beforeEntry) \<Rightarrow>
                 if afterMap keyValue = None
                 then
                   if \<not> list_ex
                          (\<lambda>de. objectSignature de = entrySignature beforeEntry \<and>
                                map_of (entryObject de) (keyField beforeEntry) = Some (JStr keyValue))
                          dels
                   then dels @ [\<lparr>entryItem = item beforeEntry, objectSignature = sig,
                                  keyFieldUsed = Some kf\<rparr>]
                   else dels
                 else dels))"

section \<open>Entry identities and the final lists\<close>

text \<open>
  String conversion in a template literal: \<^verbatim>\<open>String(v)\<close>, with \<open>None\<close> for \<^verbatim>\<open>undefined\<close>.
  An array is its elements joined by commas, \<^verbatim>\<open>null\<close> elements left empty.
\<close>

fun toStr :: "json \<Rightarrow> jsString"
  and toStrElems :: "json list \<Rightarrow> jsString list" where
  "toStr JNull = lit ''null''"
| "toStr (JBool b) = (if b then lit ''true'' else lit ''false'')"
| "toStr (JNum n) = showInt n"
| "toStr (JStr s) = s"
| "toStr (JArr xs) = joinWith (lit '','') (toStrElems xs)"
| "toStr (JObj fs) = lit ''[object Object]''"
| "toStrElems [] = []"
| "toStrElems (x # xs) = (case x of JNull \<Rightarrow> [] | _ \<Rightarrow> toStr x) # toStrElems xs"

text \<open>
  \<^verbatim>\<open>${entry[name]}\<close> on a plain object: the own property, or what the object inherits under
  the name, or \<^verbatim>\<open>undefined\<close>.
\<close>

definition readString :: "(jsString \<times> json) list \<Rightarrow> jsString \<Rightarrow> jsString" where
  "readString fs name =
     (case map_of fs name of
        Some v \<Rightarrow> toStr v
      | None \<Rightarrow>
          (case inheritedString name of
             Some s \<Rightarrow> s
           | None \<Rightarrow> lit ''undefined''))"

text \<open>
  \<^verbatim>\<open>JSON.stringify\<close> without indentation.  In a string the quote, the backslash, the
  control characters and every surrogate that is not one of a pair are escaped.
\<close>

definition hexDigit :: "int \<Rightarrow> int" where
  "hexDigit n = (if n < 10 then 48 + n else 87 + n)"

definition unicodeEscape :: "int \<Rightarrow> jsString" where
  "unicodeEscape c =
     0x5C # lit ''u'' @ [hexDigit (c div 4096 mod 16), hexDigit (c div 256 mod 16),
                    hexDigit (c div 16 mod 16), hexDigit (c mod 16)]"

definition quoteChar :: "int \<Rightarrow> jsString" where
  "quoteChar c =
     (if c = 0x22 then [0x5C, 0x22]
      else if c = 0x5C then [0x5C, 0x5C]
      else if c = 0x08 then 0x5C # lit ''b''
      else if c = 0x0C then 0x5C # lit ''f''
      else if c = 0x0A then 0x5C # lit ''n''
      else if c = 0x0D then 0x5C # lit ''r''
      else if c = 0x09 then 0x5C # lit ''t''
      else if c < 0x20 \<or> (0xD800 \<le> c \<and> c \<le> 0xDFFF) then unicodeEscape c
      else [c])"

fun quoteChars :: "jsString \<Rightarrow> jsString" where
  "quoteChars (c # d # cs) =
     (if 0xD800 \<le> c \<and> c \<le> 0xDBFF \<and> 0xDC00 \<le> d \<and> d \<le> 0xDFFF
      then c # d # quoteChars cs
      else quoteChar c @ quoteChars (d # cs))"
| "quoteChars [c] = quoteChar c"
| "quoteChars [] = []"

definition quoteString :: "jsString \<Rightarrow> jsString" where
  "quoteString s = 0x22 # quoteChars s @ [0x22]"

fun jsonStringify :: "json \<Rightarrow> jsString"
  and stringifyFields :: "(jsString \<times> json) list \<Rightarrow> jsString list"
  and stringifyElems :: "json list \<Rightarrow> jsString list" where
  "jsonStringify JNull = lit ''null''"
| "jsonStringify (JBool b) = (if b then lit ''true'' else lit ''false'')"
| "jsonStringify (JNum n) = showInt n"
| "jsonStringify (JStr s) = quoteString s"
| "jsonStringify (JArr xs) = lit ''['' @ joinWith (lit '','') (stringifyElems xs) @ lit '']''"
| "jsonStringify (JObj fs) = lit ''{'' @ joinWith (lit '','') (stringifyFields fs) @ lit ''}''"
| "stringifyFields [] = []"
| "stringifyFields (f # fs) =
     (quoteString (fst f) @ lit '':'' @ jsonStringify (snd f)) # stringifyFields fs"
| "stringifyElems [] = []"
| "stringifyElems (x # xs) = jsonStringify x # stringifyElems xs"

definition makeEntryId :: "SelectedKeyConfig \<Rightarrow> TaggedEntry \<Rightarrow> jsString" where
  "makeEntryId keyConf e =
     (let sig = objectSignature e in
      case selectedKey keyConf sig of
        Some kf \<Rightarrow> sig @ lit ''::'' @ readString (entryObject e) kf
      | None \<Rightarrow> sig @ lit ''::'' @ jsonStringify (JObj (entryObject e)))"

text \<open>
  \<^verbatim>\<open>Array.from(new Map(entries.map((e) => [id(e), e])).values())\<close>: one entry for each
  identity, at the place of the first with that identity and holding the last.
\<close>

definition dedupById :: "('a \<Rightarrow> jsString) \<Rightarrow> 'a list \<Rightarrow> 'a list" where
  "dedupById ident entries = map snd (foldl (\<lambda>m e. objSet m (ident e) e) [] entries)"

text \<open>Everything after the validation of the key selections.\<close>

definition classify :: "SelectedKeyConfig \<Rightarrow> json list \<Rightarrow> json list \<Rightarrow> ComparisonResult" where
  "classify selectedKeyConfig beforeData afterData =
     (case populate Before selectedKeyConfig [] beforeData of
        (beforeMap, errs1) \<Rightarrow>
          (case populate After selectedKeyConfig errs1 afterData of
             (afterMap, localErrors) \<Rightarrow>
               (case foldl (afterStep selectedKeyConfig beforeMap afterMap) ([], [], []) afterData of
                  (news, mods, dels) \<Rightarrow>
                    \<lparr>newEntries = dedupById (makeEntryId selectedKeyConfig) news,
                     modifiedEntries = mods,
                     deletedEntries =
                       dedupById (makeEntryId selectedKeyConfig)
                         (foldl (beforeStep selectedKeyConfig beforeMap afterMap afterData)
                            dels beforeData),
                     errors = localErrors\<rparr>)))"

text \<open>
  \<^verbatim>\<open>compareJsons\<close> on the two parsed inputs and the component state it reads: the two
  structure inventories and the key selections.
\<close>

definition compareJsons ::
  "JsonObjectStructure list \<Rightarrow> JsonObjectStructure list \<Rightarrow> SelectedKeyConfig
     \<Rightarrow> json \<Rightarrow> json \<Rightarrow> compareError + ComparisonResult" where
  "compareJsons beforeJsonStructures afterJsonStructures selectedKeyConfig beforeJson afterJson =
     (case beforeJson of
        JArr beforeData \<Rightarrow>
          (case afterJson of
             JArr afterData \<Rightarrow>
               (case missingKeySelection beforeJsonStructures afterJsonStructures
                       selectedKeyConfig beforeData afterData of
                  Some sig \<Rightarrow> Inl (MissingKeySelection sig)
                | None \<Rightarrow> Inr (classify selectedKeyConfig beforeData afterData))
           | _ \<Rightarrow> Inl (NotAnArray After))
      | _ \<Rightarrow> Inl (NotAnArray Before))"

text \<open>
  The component keeps each inventory equal to the analysis of the current input, so a
  comparison of two inputs under a key selection is:
\<close>

definition diff :: "json \<Rightarrow> json \<Rightarrow> SelectedKeyConfig \<Rightarrow> compareError + ComparisonResult" where
  "diff beforeJson afterJson selectedKeyConfig =
     compareJsons (fst (analyzeJsonStructures beforeJson)) (fst (analyzeJsonStructures afterJson))
       selectedKeyConfig beforeJson afterJson"

text \<open>
  The key selections of a component that starts with none and has run the auto-selection
  effect on the two inputs.
\<close>

definition autoSelected :: "json \<Rightarrow> json \<Rightarrow> SelectedKeyConfig" where
  "autoSelected beforeJson afterJson =
     resolveKeys (fst (analyzeJsonStructures beforeJson)) (fst (analyzeJsonStructures afterJson))
       Map.empty"

section \<open>The single-key comparator\<close>

text \<open>
  An earlier variant of the component matches all records by one key field, typed in by
  the user.  Its \<^verbatim>\<open>calculateFieldChanges\<close> differs from the one above in the last test only,
  which does not repeat the two ownership checks; there both reads are of an own property
  or both are of none, so \<open>calculateFieldChanges\<close> is that function too.  The definitions
  of the variant carry the suffix \<open>_single\<close> where the names are the same.
\<close>

datatype error_single =
    KeyFieldNotSpecified
  | KeyFieldEmpty
  | InputNotAnArray
  | ItemWithoutKeyField jsString

text \<open>\<^verbatim>\<open>parseJson\<close> from the parsed value on.\<close>

definition parseJson :: "json \<Rightarrow> jsString \<Rightarrow> error_single + json list" where
  "parseJson parsed currentKeyField =
     (if trimIsEmpty currentKeyField then Inl KeyFieldEmpty
      else
        (case parsed of
           JArr items \<Rightarrow>
             if \<not> list_all
                    (\<lambda>itm. isObject itm \<and>
                       (case getProp itm currentKeyField of
                          Some (JStr s) \<Rightarrow> \<not> trimIsEmpty s
                        | _ \<Rightarrow> False))
                    items
             then Inl (ItemWithoutKeyField currentKeyField)
             else Inr items
         | _ \<Rightarrow> Inl InputNotAnArray))"

text \<open>
  \<^verbatim>\<open>item[keyField] as string\<close>, the key of an item in \<^verbatim>\<open>beforeMap\<close> and \<^verbatim>\<open>afterMap\<close>.  Every
  item that \<^verbatim>\<open>parseJson\<close> returns has a string there.
\<close>

definition keyValueOf :: "json \<Rightarrow> jsString \<Rightarrow> jsString" where
  "keyValueOf itm kf = (case getProp itm kf of Some (JStr s) \<Rightarrow> s | _ \<Rightarrow> [])"

definition toMap_single :: "jsString \<Rightarrow> json list \<Rightarrow> (jsString \<times> json) list" where
  "toMap_single kf items = foldl (\<lambda>m itm. objSet m (keyValueOf itm kf) itm) [] items"

record ModifiedEntry_single =
  keyFieldValue_single :: jsString
  before_single :: json
  after_single :: json
  changes_single :: FieldChanges

record ComparisonResult_single =
  newEntries_single :: "json list"
  modifiedEntries_single :: "ModifiedEntry_single list"
  deletedEntries_single :: "json list"

text \<open>The body of \<^verbatim>\<open>afterMap.forEach\<close>.\<close>

definition afterStep_single ::
  "jsString \<Rightarrow> (jsString \<times> json) list \<Rightarrow> json list \<times> ModifiedEntry_single list
     \<Rightarrow> jsString \<times> json \<Rightarrow> json list \<times> ModifiedEntry_single list" where
  "afterStep_single kf beforeMap st entry =
     (case st of
        (news, mods) \<Rightarrow>
          (case entry of
             (keyValue, afterItem) \<Rightarrow>
               (case map_of beforeMap keyValue of
                  None \<Rightarrow> (news @ [afterItem], mods)
                | Some beforeItem \<Rightarrow>
                    if \<not> isEqual beforeItem afterItem
                    then
                      (let chs = pairChanges kf beforeItem afterItem in
                       if hasChanges chs
                       then
                         (news,
                          mods @ [\<lparr>keyFieldValue_single = keyValue,
                                    before_single = beforeItem, after_single = afterItem,
                                    changes_single = chs\<rparr>])
                       else (news, mods))
                    else (news, mods))))"

text \<open>The body of \<^verbatim>\<open>beforeMap.forEach\<close>.\<close>

definition beforeStep_single ::
  "(jsString \<times> json) list \<Rightarrow> json list \<Rightarrow> jsString \<times> json \<Rightarrow> json list" where
  "beforeStep_single afterMap dels entry =
     (case entry of
        (keyValue, beforeItem) \<Rightarrow>
          if map_of afterMap keyValue = None then dels @ [beforeItem] else dels)"

text \<open>
  \<^verbatim>\<open>compareJsons\<close> of the variant.  Both inputs are parsed before either result is looked
  at, so the error shown when both fail is the one set last.
\<close>

definition compareJsons_single ::
  "jsString \<Rightarrow> json \<Rightarrow> json \<Rightarrow> error_single + ComparisonResult_single" where
  "compareJsons_single kf beforeJson afterJson =
     (if trimIsEmpty kf then Inl KeyFieldNotSpecified
      else
        (case (parseJson beforeJson kf, parseJson afterJson kf) of
           (_, Inl e) \<Rightarrow> Inl e
         | (Inl e, Inr afterData) \<Rightarrow> Inl e
         | (Inr beforeData, Inr afterData) \<Rightarrow>
             (let beforeMap = toMap_single kf beforeData;
                  afterMap = toMap_single kf afterData in
              (case foldl (afterStep_single kf beforeMap) ([], []) afterMap of
                 (news, mods) \<Rightarrow>
                   Inr \<lparr>newEntries_single = news,
                        modifiedEntries_single = mods,
                        deletedEntries_single =
                          foldl (beforeStep_single afterMap) [] beforeMap\<rparr>))))"

section \<open>Re-applying a change set\<close>

text \<open>
  The reconstruction that field-change completeness speaks of: delete every field named
  in \<open>removed\<close>, replace every field named in \<open>changed\<close> by its after-value, insert every
  field named in \<open>added\<close> with its after-value.
\<close>

definition applyChanges :: "FieldChanges \<Rightarrow> (jsString \<times> json) list \<Rightarrow> (jsString \<times> json) list" where
  "applyChanges chs beforeFields =
     foldl (\<lambda>fs p. objSet fs (fst p) (snd p))
       (foldl (\<lambda>fs p. objSet fs (fst p) (snd (snd p)))
          (foldl (\<lambda>fs p. objDelete fs (fst p)) beforeFields (removed chs))
          (changed chs))
       (added chs)"

text \<open>
  An array owns \<^verbatim>\<open>length\<close> without listing it among its keys.  \<open>hiddenLength v w\<close> says that
  \<open>v\<close> is an array and \<open>w\<close> lists a field of that name, so that \<^verbatim>\<open>calculateFieldChanges\<close>
  finds the field on both sides.
\<close>

definition hiddenLength :: "json \<Rightarrow> json \<Rightarrow> bool" where
  "hiddenLength v w = (case v of JArr xs \<Rightarrow> lit ''length'' \<in> set (objectKeys w) | _ \<Rightarrow> False)"

section \<open>Sample records\<close>

definition recAlice :: json where
  "recAlice = JObj [(lit ''id'', JStr (lit ''1'')), (lit ''name'', JStr (lit ''Alice''))]"

definition recAlicia :: json where
  "recAlicia = JObj [(lit ''id'', JStr (lit ''1'')), (lit ''name'', JStr (lit ''Alicia''))]"

definition recBlankName :: json where
  "recBlankName = JObj [(lit ''id'', JStr (lit ''1'')), (lit ''name'', JStr (lit '' ''))]"

definition recSku :: json where
  "recSku = JObj [(lit ''sku'', JStr (lit ''s1''))]"


definition recOld :: json where
  "recOld =
     JObj [(lit ''id'', JStr (lit ''7'')), (lit ''name'', JStr (lit ''Ann'')), (lit ''p,q'', JNum 1),
           (lit ''same'', JObj [(lit ''p'', JNum 1), (lit ''q'', JNum 2)])]"

definition recNew :: json where
  "recNew =
     JObj [(lit ''same'', JObj [(lit ''q'', JNum 2), (lit ''p'', JNum 1)]), (lit ''q'', JNum 2),
           (lit ''p'', JNum 1), (lit ''name'', JStr (lit ''Anna'')), (lit ''id'', JStr (lit ''7''))]"


definition keyedById :: SelectedKeyConfig where
  "keyedById = [lit ''a,id'' \<mapsto> lit ''id'', lit ''b,id'' \<mapsto> lit ''id'', lit ''id,name'' \<mapsto> lit ''id'']"

definition keyedOldNew :: SelectedKeyConfig where
  "keyedOldNew = [lit ''id,name,p,q,same'' \<mapsto> lit ''id'']"

definition modOldNew :: ModifiedEntry where
  "modOldNew =
     \<lparr>keyFieldValue = lit ''7'', modKeyFieldUsed = lit ''id'', modObjectSignature = lit ''id,name,p,q,same'',
      before = recOld, after = recNew,
      changes =
        \<lparr>added = [(lit ''q'', JNum 2), (lit ''p'', JNum 1)],
         removed = [(lit ''p,q'', JNum 1)],
         changed = [(lit ''name'', JStr (lit ''Ann''), JStr (lit ''Anna''))]\<rparr>\<rparr>"

definition modAlice :: ModifiedEntry where
  "modAlice =
     \<lparr>keyFieldValue = lit ''1'', modKeyFieldUsed = lit ''id'', modObjectSignature = lit ''id,name'',
      before = recAlice, after = recAlicia,
      changes =
        \<lparr>added = [], removed = [],
         changed = [(lit ''name'', JStr (lit ''Alice''), JStr (lit ''Alicia''))]\<rparr>\<rparr>"





definition recTom :: json where
  "recTom = JObj [(lit ''name'', JStr (lit ''tom'')), (lit ''age'', JNum 1), (lit ''city'', JStr (lit ''x''))]"

definition recTomLater :: json where
  "recTomLater = JObj [(lit ''name'', JStr (lit ''tom'')), (lit ''age'', JNum 2), (lit ''zip'', JStr (lit ''9''))]"

definition modTom :: ModifiedEntry_single where
  "modTom =
     \<lparr>keyFieldValue_single = lit ''tom'', before_single = recTom, after_single = recTomLater,
      changes_single =
        \<lparr>added = [(lit ''zip'', JStr (lit ''9''))], removed = [(lit ''city'', JStr (lit ''x''))],
         changed = [(lit ''age'', (JNum 1, JNum 2))]\<rparr>\<rparr>"

definition recLengthField :: json where
  "recLengthField = JObj [(lit ''0'', JStr (lit ''k'')), (lit ''length'', JNum 1), (lit ''x'', JNum 1)]"

definition modLengthField :: ModifiedEntry_single where
  "modLengthField =
     \<lparr>keyFieldValue_single = lit ''k'', before_single = recLengthField,
      after_single = JArr [JStr (lit ''k'')],
      changes_single = \<lparr>added = [], removed = [(lit ''x'', JNum 1)], changed = []\<rparr>\<rparr>"


definition recProtoOld :: json where
  "recProtoOld =
     JObj [(lit ''id'', JStr (lit ''1'')), (lit ''a'', JNum 1), (lit ''__proto__'', JNum 1)]"

definition recProtoNew :: json where
  "recProtoNew =
     JObj [(lit ''id'', JStr (lit ''1'')), (lit ''a'', JNum 2), (lit ''__proto__'', JNum 2)]"

definition modProto :: ModifiedEntry where
  "modProto =
     \<lparr>keyFieldValue = lit ''1'', modKeyFieldUsed = lit ''id'',
      modObjectSignature = lit ''__proto__,a,id'',
      before = recProtoOld, after = recProtoNew,
      changes = \<lparr>added = [], removed = [], changed = [(lit ''a'', JNum 1, JNum 2)]\<rparr>\<rparr>"

definition recKB :: json where
  "recKB = JObj [(lit ''id'', JStr (lit ''k'')), (lit ''b'', JNum 1)]"

definition recMB :: json where
  "recMB = JObj [(lit ''id'', JStr (lit ''m'')), (lit ''b'', JNum 2)]"

definition recNameM :: json where
  "recNameM = JObj [(lit ''name'', JStr (lit ''m'')), (lit ''id'', JStr (lit ''k''))]"

definition recNameZ :: json where
  "recNameZ = JObj [(lit ''name'', JStr (lit ''z'')), (lit ''id'', JStr (lit '' ''))]"

definition recKA :: json where
  "recKA = JObj [(lit ''id'', JStr (lit ''k'')), (lit ''a'', JNum 1)]"

definition recCtor1 :: json where
  "recCtor1 = JObj [(lit ''constructor'', JNum 1)]"

definition recCtor2 :: json where
  "recCtor2 = JObj [(lit ''constructor'', JNum 2)]"

definition recCtorKey :: json where
  "recCtorKey = JObj [(lit ''constructor'', JStr (lit ''x''))]"

definition recNameK1 :: json where
  "recNameK1 = JObj [(lit ''name'', JStr (lit ''k'')), (lit ''id'', JNum 1)]"

definition recNameK2 :: json where
  "recNameK2 = JObj [(lit ''name'', JStr (lit ''k'')), (lit ''id'', JNum 2)]"

definition recKX :: json where
  "recKX = JObj [(lit ''id'', JStr (lit ''k'')), (lit ''x'', JNum 1)]"

definition recColons :: json where
  "recColons = JObj [(lit ''a::'', JNum 1), (lit ''b'', JNum 2)]"

definition recColonsRev :: json where
  "recColonsRev = JObj [(lit ''b'', JNum 2), (lit ''a::'', JNum 1)]"

definition recCollide :: json where
  \<open>recCollide =
     JObj [(lit ''a'', JStr (lit '',b::{"a::":1,"b":2,"objectSignature":"a::,b"}''))]\<close>

section \<open>Auxiliary notions of the proofs\<close>

text \<open>A map from signatures to structures that files every structure under its own signature.\<close>

definition keyedBySignature :: "(jsString \<times> JsonObjectStructure) list \<Rightarrow> bool" where
  "keyedBySignature m = (distinct (map fst m) \<and> list_all (\<lambda>p. fst p = signature (snd p)) m)"

text \<open>Reading a decimal numeral back, to tell the index keys of an array apart.\<close>

definition readNat :: "jsString \<Rightarrow> nat" where
  "readNat s = foldl (\<lambda>acc c. 10 * acc + nat (c - 48)) 0 s"

text \<open>
  What the loops that fill \<^verbatim>\<open>beforeMap\<close> and \<^verbatim>\<open>afterMap\<close> establish for every entry they store
  under a key value.
\<close>

definition validEntry :: "SelectedKeyConfig \<Rightarrow> json set \<Rightarrow> jsString \<Rightarrow> MapEntry \<Rightarrow> bool" where
  "validEntry conf items k e =
     (item e \<in> items \<and> isObject (item e) \<and>
      entrySignature e = getObjectSignature (item e) \<and>
      selectedKey conf (entrySignature e) = Some (keyField e) \<and>
      validKeyValue (item e) (keyField e) = Some k)"

definition validMap :: "SelectedKeyConfig \<Rightarrow> json set \<Rightarrow> (jsString \<rightharpoonup> MapEntry) \<Rightarrow> bool" where
  "validMap conf items m = (\<forall>k e. m k = Some e \<longrightarrow> validEntry conf items k e)"

text \<open>The two lookups of a comparison, as functions of the inputs.\<close>

definition beforeLookup :: "SelectedKeyConfig \<Rightarrow> json list \<Rightarrow> (jsString \<rightharpoonup> MapEntry)" where
  "beforeLookup conf beforeData = fst (populate Before conf [] beforeData)"

definition afterLookup :: "SelectedKeyConfig \<Rightarrow> json list \<Rightarrow> (jsString \<rightharpoonup> MapEntry)" where
  "afterLookup conf afterData = fst (populate After conf [] afterData)"




section \<open>Insertion-ordered maps\<close>

lemma map_of_objSet: "map_of (objSet m k v) = (map_of m)(k \<mapsto> v)"
  by (induction m k v rule: objSet.induct) (auto simp: fun_eq_iff)

lemma keys_objSet:
  "map fst (objSet m k v) = (if k \<in> fst ` set m then map fst m else map fst m @ [k])"
  by (induction m k v rule: objSet.induct) auto

lemma distinct_objSet: "distinct (map fst m) \<Longrightarrow> distinct (map fst (objSet m k v))"
  by (simp add: keys_objSet)

lemma set_objSet_subset: "set (objSet m k v) \<subseteq> insert (k, v) (set m)"
  by (induction m k v rule: objSet.induct) auto

lemma set_foldl_setAdd: "set (foldl setAdd s xs) = set s \<union> set xs"
  by (induction xs arbitrary: s) (auto simp: setAdd_def)

lemma set_newSet: "set (newSet xs) = set xs"
  by (simp add: newSet_def set_foldl_setAdd)


section \<open>Deep equality on parsed values\<close>

lemma isEqualFields_iff:
  "isEqualFields fs gs \<longleftrightarrow> (\<forall>p \<in> set fs. \<exists>w. map_of gs (fst p) = Some w \<and> isEqual (snd p) w)"
  by (induction fs) (auto split: option.splits)

lemma isEqualList_iff: "isEqualList xs ys \<longleftrightarrow> list_all2 isEqual xs ys"
  by (induction xs arbitrary: ys) (auto simp: list_all2_Cons1 split: list.splits)

lemma wellFormedFields_iff: "wellFormedFields fs \<longleftrightarrow> (\<forall>p \<in> set fs. wellFormed (snd p))"
  by (induction fs) auto

lemma wellFormedList_iff: "wellFormedList xs \<longleftrightarrow> (\<forall>x \<in> set xs. wellFormed x)"
  by (induction xs) auto

lemma isEqual_refl: "wellFormed v \<Longrightarrow> isEqual v v"
proof (induction v)
  case (JArr xs)
  then have "list_all2 isEqual xs xs"
    by (auto simp: list_all2_same wellFormedList_iff)
  then show ?case by (simp add: isEqualList_iff)
next
  case (JObj fs)
  have "\<exists>w. map_of fs (fst p) = Some w \<and> isEqual (snd p) w" if p: "p \<in> set fs" for p
  proof -
    have "map_of fs (fst p) = Some (snd p)"
      using JObj.prems p by (simp add: map_of_eq_Some_iff)
    moreover have "isEqual (snd p) (snd p)"
      using JObj.IH [of p "snd p"] JObj.prems p
      by (cases p) (auto simp: wellFormedFields_iff)
    ultimately show ?thesis by blast
  qed
  then show ?case by (simp add: isEqualFields_iff)
qed simp_all

lemma isEqual_objI:
  assumes "distinct (map fst fs)" and "distinct (map fst gs)"
    and "fst ` set fs = fst ` set gs"
    and "\<And>k v w. map_of fs k = Some v \<Longrightarrow> map_of gs k = Some w \<Longrightarrow> isEqual v w"
  shows "isEqual (JObj fs) (JObj gs)"
proof -
  have "length fs = length gs"
  proof -
    have "length (map fst fs) = card (set (map fst fs))"
      using assms(1) by (simp only: distinct_card)
    also have "\<dots> = card (set (map fst gs))" using assms(3) by simp
    also have "\<dots> = length (map fst gs)" using assms(2) by (simp only: distinct_card)
    finally show ?thesis by simp
  qed
  moreover have "\<exists>w. map_of gs (fst p) = Some w \<and> isEqual (snd p) w" if p: "p \<in> set fs" for p
  proof -
    have f: "map_of fs (fst p) = Some (snd p)"
      using p assms(1) by (simp add: map_of_eq_Some_iff)
    from p assms(3) have "fst p \<in> fst ` set gs" by auto
    then obtain w where g: "map_of gs (fst p) = Some w"
      by (metis domD dom_map_of_conv_image_fst)
    from assms(4) [OF f g] g show ?thesis by blast
  qed
  ultimately show ?thesis by (simp add: isEqualFields_iff)
qed

section \<open>Index keys and signatures\<close>

lemma readNat_showNat: "readNat (showNat n) = n"
proof (induction n rule: showNat.induct)
  case (1 n)
  show ?case
  proof (cases "n < 10")
    case True
    then show ?thesis by (simp add: showNat.simps [of n] readNat_def)
  next
    case False
    with 1 have ih: "readNat (showNat (n div 10)) = n div 10" by simp
    have "readNat (showNat n) = 10 * readNat (showNat (n div 10)) + n mod 10"
      using False by (simp add: showNat.simps [of n] readNat_def)
    with ih show ?thesis by simp
  qed
qed

lemma inj_showNat: "inj showNat"
  by (rule inj_on_inverseI [where g = readNat]) (rule readNat_showNat)

lemma distinct_index_keys: "distinct (map showNat [0..<n])"
  by (simp add: distinct_map inj_showNat inj_on_subset [OF inj_showNat])

lemma showNat_no_l: "108 \<notin> set (showNat n)"
proof (induction n rule: showNat.induct)
  case (1 n)
  show ?case
  proof (cases "n < 10")
    case True
    then show ?thesis by (simp add: showNat.simps [of n])
  next
    case False
    with 1 have "108 \<notin> set (showNat (n div 10))" by simp
    moreover have "n mod 10 < 10" by simp
    ultimately show ?thesis using False
      by (simp add: showNat.simps [of n])
  qed
qed

lemma set_joinWith_subset: "set (joinWith sep ks) \<subseteq> set sep \<union> (\<Union>k \<in> set ks. set k)"
  by (induction sep ks rule: joinWith.induct) auto

lemma set_joinWith_member: "k \<in> set ks \<Longrightarrow> set k \<subseteq> set (joinWith sep ks)"
  by (induction sep ks rule: joinWith.induct) auto

lemma array_signature_no_l: "108 \<notin> set (getObjectSignature (JArr xs))"
proof -
  have "set (getObjectSignature (JArr xs))
          \<subseteq> set (lit '','') \<union> (\<Union>k \<in> set (map showNat [0..<length xs]). set k)"
    unfolding getObjectSignature_def objectKeys_def
    using set_joinWith_subset [of "lit '',''" "sort (map fst (ownFields (JArr xs)))"]
    by simp
  then show ?thesis using showNat_no_l by (auto simp: lit_def)
qed

lemma length_not_key_of_array_shape:
  assumes "getObjectSignature w = getObjectSignature (JArr xs)"
  shows "lit ''length'' \<notin> set (objectKeys w)"
proof
  assume "lit ''length'' \<in> set (objectKeys w)"
  then have "lit ''length'' \<in> set (sort (objectKeys w))" by simp
  then have "set (lit ''length'') \<subseteq> set (getObjectSignature w)"
    unfolding getObjectSignature_def by (rule set_joinWith_member)
  then have "108 \<in> set (getObjectSignature w)" by (auto simp: lit_def)
  with assms array_signature_no_l show False by simp
qed

text \<open>
  For two records of one signature, reading a field of either is a lookup among its own
  enumerable properties.
\<close>

lemma getProp_own:
  assumes "getObjectSignature b = getObjectSignature a"
    and "k \<in> set (objectKeys b) \<union> set (objectKeys a)"
  shows "getProp b k = map_of (ownFields b) k"
proof (cases b)
  case (JArr xs)
  from assms(1) JArr have "getObjectSignature a = getObjectSignature (JArr xs)" by simp
  then have "lit ''length'' \<notin> set (objectKeys a)"
    by (rule length_not_key_of_array_shape)
  moreover from JArr have "lit ''length'' \<notin> set (objectKeys b)"
    using length_not_key_of_array_shape [of b xs] by simp
  ultimately have "k \<noteq> lit ''length''" using assms(2) by auto
  with JArr show ?thesis by simp
qed simp_all

lemma distinct_objectKeys: "wellFormed v \<Longrightarrow> distinct (objectKeys v)"
  by (cases v) (simp_all add: objectKeys_def distinct_index_keys)

lemma wellFormed_ownFields: "wellFormed v \<Longrightarrow> p \<in> set (ownFields v) \<Longrightarrow> wellFormed (snd p)"
proof (cases v)
  case (JArr xs)
  assume "wellFormed v" and "p \<in> set (ownFields v)"
  with JArr have "snd p \<in> set xs" by (cases p) (auto dest: set_zip_rightD)
  with \<open>wellFormed v\<close> JArr show ?thesis by (simp add: wellFormedList_iff)
qed (auto simp: wellFormedFields_iff)

section \<open>Inherited values as key fields\<close>

text \<open>
  Where the read of the key selections finds an inherited value, the string it converts
  to is longer than the signature and so names no field of a record of that signature.
  Such a record never has a valid key value, and no lookup finds anything for it: no
  record is ever stored, paired or listed under an inherited value.
\<close>

lemma inheritedString_length:
  assumes "inheritedString name = Some s"
  shows "length name < length s" and "6 < length s"
  using assms
  by (auto simp: inheritedString_def lit_def split: if_splits)

lemma length_joinWith_member: "k \<in> set ks \<Longrightarrow> length k \<le> length (joinWith sep ks)"
  by (induction sep ks rule: joinWith.induct) auto

lemma key_length_le_signature:
  "k \<in> set (objectKeys v) \<Longrightarrow> length k \<le> length (getObjectSignature v)"
  unfolding getObjectSignature_def by (rule length_joinWith_member) simp

lemma inherited_key_not_a_field:
  assumes "inheritedString (getObjectSignature itm) = Some kf"
  shows "getProp itm kf = None"
proof -
  have "kf \<notin> set (objectKeys itm)"
    using key_length_le_signature [of kf itm] inheritedString_length(1) [OF assms] by auto
  then have own: "map_of (ownFields itm) kf = None"
    by (simp add: objectKeys_def map_of_eq_None_iff)
  have "kf \<noteq> lit ''length''"
    using inheritedString_length(2) [OF assms] by (auto simp: lit_def)
  with own show ?thesis by (cases itm) simp_all
qed

lemma inherited_key_never_valid:
  assumes "selectedKeyConfig (getObjectSignature itm) = None"
    and "selectedKey selectedKeyConfig (getObjectSignature itm) = Some kf"
  shows "validKeyValue itm kf = None" and "lookupByKey m itm kf = None"
proof -
  from assms have "inheritedString (getObjectSignature itm) = Some kf"
    by (simp add: selectedKey_def)
  then have "getProp itm kf = None" by (rule inherited_key_not_a_field)
  then show "validKeyValue itm kf = None" and "lookupByKey m itm kf = None"
    by (simp_all add: validKeyValue_def lookupByKey_def)
qed

section \<open>What the field changes record\<close>

lemma distinct_newSet: "distinct (newSet xs)"
proof -
  have "distinct s \<Longrightarrow> distinct (foldl setAdd s xs)" for s :: "'a list"
    by (induction xs arbitrary: s) (auto simp: setAdd_def)
  then show ?thesis by (simp add: newSet_def)
qed

lemma map_of_assign:
  "map_of (assign fs name v) =
     (if name = lit ''__proto__'' then map_of fs else (map_of fs)(name \<mapsto> v))"
  by (simp add: assign_def map_of_objSet)

lemma distinct_assign: "distinct (map fst fs) \<Longrightarrow> distinct (map fst (assign fs name v))"
  by (simp add: assign_def distinct_objSet)

lemma added_fold:
  "map_of (added (foldl (fieldChangeStep b a) acc ks)) k =
     (if k \<in> set ks \<and> k \<noteq> lit ''__proto__'' \<and> getProp b k = None \<and> getProp a k \<noteq> None then getProp a k
      else map_of (added acc) k)"
proof (induction ks arbitrary: acc)
  case Nil
  then show ?case by simp
next
  case (Cons x ks)
  have step: "map_of (added (fieldChangeStep b a acc x)) k =
      (if k = x \<and> k \<noteq> lit ''__proto__'' \<and> getProp b k = None \<and> getProp a k \<noteq> None then getProp a k
       else map_of (added acc) k)"
    by (auto simp: fieldChangeStep_def map_of_assign split: option.splits)
  show ?case
    by (simp only: foldl_Cons Cons.IH step) auto
qed

lemma removed_fold:
  "map_of (removed (foldl (fieldChangeStep b a) acc ks)) k =
     (if k \<in> set ks \<and> k \<noteq> lit ''__proto__'' \<and> getProp a k = None \<and> getProp b k \<noteq> None then getProp b k
      else map_of (removed acc) k)"
proof (induction ks arbitrary: acc)
  case Nil
  then show ?case by simp
next
  case (Cons x ks)
  have step: "map_of (removed (fieldChangeStep b a acc x)) k =
      (if k = x \<and> k \<noteq> lit ''__proto__'' \<and> getProp a k = None \<and> getProp b k \<noteq> None then getProp b k
       else map_of (removed acc) k)"
    by (auto simp: fieldChangeStep_def map_of_assign split: option.splits)
  show ?case
    by (simp only: foldl_Cons Cons.IH step) auto
qed

lemma changed_fold:
  "map_of (changed (foldl (fieldChangeStep b a) acc ks)) k =
     (case getProp b k of
        None \<Rightarrow> map_of (changed acc) k
      | Some v1 \<Rightarrow>
          (case getProp a k of
             None \<Rightarrow> map_of (changed acc) k
           | Some v2 \<Rightarrow>
               if k \<in> set ks \<and> k \<noteq> lit ''__proto__'' \<and> \<not> isEqual v1 v2 then Some (v1, v2)
               else map_of (changed acc) k))"
proof (induction ks arbitrary: acc)
  case Nil
  then show ?case by (simp split: option.splits)
next
  case (Cons x ks)
  have step: "map_of (changed (fieldChangeStep b a acc x)) k =
     (case getProp b k of
        None \<Rightarrow> map_of (changed acc) k
      | Some v1 \<Rightarrow>
          (case getProp a k of
             None \<Rightarrow> map_of (changed acc) k
           | Some v2 \<Rightarrow>
               if k = x \<and> k \<noteq> lit ''__proto__'' \<and> \<not> isEqual v1 v2 then Some (v1, v2)
               else map_of (changed acc) k))"
    by (auto simp: fieldChangeStep_def map_of_assign split: option.splits)
  show ?case
    by (simp only: foldl_Cons Cons.IH step) (auto split: option.splits)
qed

lemma set_allKeys:
  "set (newSet (objectKeys b @ objectKeys a)) = set (objectKeys b) \<union> set (objectKeys a)"
  by (simp add: set_newSet)

lemma added_calculate:
  "map_of (added (calculateFieldChanges b a)) k =
     (if k \<in> set (objectKeys b) \<union> set (objectKeys a) \<and> k \<noteq> lit ''__proto__'' \<and> getProp b k = None \<and> getProp a k \<noteq> None
      then getProp a k else None)"
  unfolding calculateFieldChanges_def added_fold set_allKeys by (simp add: noChanges_def)

lemma removed_calculate:
  "map_of (removed (calculateFieldChanges b a)) k =
     (if k \<in> set (objectKeys b) \<union> set (objectKeys a) \<and> k \<noteq> lit ''__proto__'' \<and> getProp a k = None \<and> getProp b k \<noteq> None
      then getProp b k else None)"
  unfolding calculateFieldChanges_def removed_fold set_allKeys by (simp add: noChanges_def)

lemma changed_calculate:
  "map_of (changed (calculateFieldChanges b a)) k =
     (case getProp b k of
        None \<Rightarrow> None
      | Some v1 \<Rightarrow>
          (case getProp a k of
             None \<Rightarrow> None
           | Some v2 \<Rightarrow>
               if k \<in> set (objectKeys b) \<union> set (objectKeys a) \<and> k \<noteq> lit ''__proto__'' \<and>
                  \<not> isEqual v1 v2
               then Some (v1, v2) else None))"
  unfolding calculateFieldChanges_def changed_fold set_allKeys
  by (simp add: noChanges_def split: option.splits)

text \<open>The key field is never taken out of \<open>changed\<close>: an entry there means the values differ.\<close>

lemma pairChanges_eq: "pairChanges kf b a = calculateFieldChanges b a"
proof -
  have "\<not> (map_of (changed (calculateFieldChanges b a)) kf \<noteq> None \<and>
            isEqualOpt (getProp b kf) (getProp a kf))"
    by (auto simp: changed_calculate split: option.splits if_splits)
  then show ?thesis unfolding pairChanges_def Let_def by (rule if_not_P)
qed

lemma map_of_objDelete: "map_of (objDelete fs k') k = (if k = k' then None else map_of fs k)"
  by (induction fs) (auto simp: objDelete_def)

lemma distinct_objDelete: "distinct (map fst fs) \<Longrightarrow> distinct (map fst (objDelete fs k))"
  by (simp add: objDelete_def distinct_map_filter)

lemma map_of_delete_all:
  "map_of (foldl (\<lambda>fs p. objDelete fs (fst p)) fs xs) k =
     (if k \<in> fst ` set xs then None else map_of fs k)"
  by (induction xs arbitrary: fs) (auto simp: map_of_objDelete)

lemma distinct_delete_all:
  "distinct (map fst fs) \<Longrightarrow> distinct (map fst (foldl (\<lambda>fs p. objDelete fs (fst p)) fs xs))"
  by (induction xs arbitrary: fs) (auto simp: distinct_objDelete)

lemma map_of_set_all:
  "distinct (map fst xs) \<Longrightarrow>
     map_of (foldl (\<lambda>fs p. objSet fs (fst p) (h (snd p))) fs xs) k =
       (case map_of xs k of None \<Rightarrow> map_of fs k | Some v \<Rightarrow> Some (h v))"
proof (induction xs arbitrary: fs)
  case Nil
  then show ?case by simp
next
  case (Cons x xs)
  then have "map_of xs (fst x) = None"
    by (simp add: map_of_eq_None_iff)
  with Cons show ?case
    by (cases x) (auto simp: map_of_objSet split: option.splits)
qed

lemma distinct_set_all:
  "distinct (map fst fs) \<Longrightarrow>
     distinct (map fst (foldl (\<lambda>fs p. objSet fs (fst p) (h (snd p))) fs xs))"
  by (induction xs arbitrary: fs) (auto simp: distinct_objSet)

lemma distinct_fieldChangeStep:
  "distinct (map fst (added acc)) \<and> distinct (map fst (removed acc)) \<and>
   distinct (map fst (changed acc)) \<Longrightarrow>
   distinct (map fst (added (fieldChangeStep b a acc k))) \<and>
   distinct (map fst (removed (fieldChangeStep b a acc k))) \<and>
   distinct (map fst (changed (fieldChangeStep b a acc k)))"
  by (auto simp: fieldChangeStep_def distinct_assign split: option.splits)

lemma distinct_fieldChanges_fold:
  "distinct (map fst (added acc)) \<and> distinct (map fst (removed acc)) \<and>
   distinct (map fst (changed acc)) \<Longrightarrow>
   distinct (map fst (added (foldl (fieldChangeStep b a) acc ks))) \<and>
   distinct (map fst (removed (foldl (fieldChangeStep b a) acc ks))) \<and>
   distinct (map fst (changed (foldl (fieldChangeStep b a) acc ks)))"
proof (induction ks arbitrary: acc)
  case Nil
  then show ?case by simp
next
  case (Cons k ks)
  from Cons.IH [OF distinct_fieldChangeStep [OF Cons.prems]] show ?case by simp
qed

lemma distinct_calculate:
  "distinct (map fst (added (calculateFieldChanges b a))) \<and>
   distinct (map fst (removed (calculateFieldChanges b a))) \<and>
   distinct (map fst (changed (calculateFieldChanges b a)))"
  unfolding calculateFieldChanges_def
  by (rule distinct_fieldChanges_fold) (simp add: noChanges_def)

lemma map_of_applyChanges:
  assumes "distinct (map fst (added chs))" and "distinct (map fst (changed chs))"
  shows "map_of (applyChanges chs fs) k =
     (case map_of (added chs) k of
        Some v \<Rightarrow> Some v
      | None \<Rightarrow>
          (case map_of (changed chs) k of
             Some vs \<Rightarrow> Some (snd vs)
           | None \<Rightarrow> if k \<in> fst ` set (removed chs) then None else map_of fs k))"
proof -
  have "map_of (applyChanges chs fs) k =
     (case map_of (added chs) k of
        None \<Rightarrow>
          map_of (foldl (\<lambda>fs p. objSet fs (fst p) (snd (snd p)))
                    (foldl (\<lambda>fs p. objDelete fs (fst p)) fs (removed chs)) (changed chs)) k
      | Some v \<Rightarrow> Some v)"
    unfolding applyChanges_def
    using map_of_set_all [OF assms(1), where h = "\<lambda>v. v"] by simp
  then show ?thesis
    by (simp add: map_of_set_all [OF assms(2)] map_of_delete_all split: option.splits)
qed

lemma distinct_applyChanges:
  "distinct (map fst fs) \<Longrightarrow> distinct (map fst (applyChanges chs fs))"
proof -
  assume d: "distinct (map fst fs)"
  have 1: "distinct (map fst (foldl (\<lambda>fs p. objDelete fs (fst p)) fs (removed chs)))"
    using d by (rule distinct_delete_all)
  have 2: "distinct (map fst (foldl (\<lambda>fs p. objSet fs (fst p) (snd (snd p)))
      (foldl (\<lambda>fs p. objDelete fs (fst p)) fs (removed chs)) (changed chs)))"
    using 1 by (rule distinct_set_all [where h = snd])
  show ?thesis
    unfolding applyChanges_def
    using distinct_set_all [OF 2, where h = "\<lambda>v. v"] by simp
qed

lemma reapply_changes_own:
  assumes own: "\<And>k. k \<in> set (objectKeys b) \<union> set (objectKeys a) \<Longrightarrow>
      getProp b k = map_of (ownFields b) k \<and> getProp a k = map_of (ownFields a) k"
    and proto: "lit ''__proto__'' \<notin> set (objectKeys b) \<union> set (objectKeys a)"
    and wb: "wellFormed b" and wa: "wellFormed a"
  shows "isEqual (JObj (applyChanges (calculateFieldChanges b a) (ownFields b)))
           (JObj (ownFields a))"
proof (rule isEqual_objI)
  let ?chs = "calculateFieldChanges b a"
  let ?K = "set (objectKeys b) \<union> set (objectKeys a)"
  have db: "distinct (map fst (ownFields b))" and da: "distinct (map fst (ownFields a))"
    using distinct_objectKeys [OF wb] distinct_objectKeys [OF wa]
    by (simp_all add: objectKeys_def)
  show "distinct (map fst (applyChanges ?chs (ownFields b)))"
    using db by (rule distinct_applyChanges)
  show "distinct (map fst (ownFields a))" by (rule da)
  have ownb: "getProp b k = map_of (ownFields b) k" if "k \<in> ?K" for k
    using own [OF that] by simp
  have owna: "getProp a k = map_of (ownFields a) k" if "k \<in> ?K" for k
    using own [OF that] by simp
  have outside: "map_of (ownFields b) k = None \<and> map_of (ownFields a) k = None"
    if "k \<notin> ?K" for k
    using that by (auto simp: objectKeys_def map_of_eq_None_iff)
  have removed_keys: "k \<in> fst ` set (removed ?chs) \<longleftrightarrow>
      k \<in> ?K \<and> getProp a k = None \<and> getProp b k \<noteq> None" for k
  proof -
    have "k \<in> fst ` set (removed ?chs) \<longleftrightarrow> map_of (removed ?chs) k \<noteq> None"
      by (simp add: map_of_eq_None_iff)
    moreover have "k \<noteq> lit ''__proto__''" if "k \<in> ?K"
      using that proto by auto
    ultimately show ?thesis by (auto simp: removed_calculate)
  qed
  have result: "map_of (applyChanges ?chs (ownFields b)) k =
     (if k \<in> ?K then
        (case map_of (ownFields a) k of
           None \<Rightarrow> None
         | Some v2 \<Rightarrow>
             (case map_of (ownFields b) k of
                None \<Rightarrow> Some v2
              | Some v1 \<Rightarrow> if isEqual v1 v2 then Some v1 else Some v2))
      else None)" for k
  proof (cases "k \<in> ?K")
    case True
    then have "k \<noteq> lit ''__proto__''" using proto by auto
    then show ?thesis
      using True ownb [OF True] owna [OF True]
      by (simp add: map_of_applyChanges distinct_calculate added_calculate changed_calculate
             removed_keys split: option.splits)
  next
    case False
    have "map_of (changed ?chs) k = None"
      using False by (simp add: changed_calculate split: option.splits)
    with False outside [OF False] show ?thesis
      by (simp add: map_of_applyChanges distinct_calculate added_calculate)
  qed
  show "fst ` set (applyChanges ?chs (ownFields b)) = fst ` set (ownFields a)"
  proof -
    have "map_of (ownFields a) k \<noteq> None \<Longrightarrow> k \<in> ?K" for k
      using outside [of k] by (cases "k \<in> ?K") auto
    then have "dom (map_of (applyChanges ?chs (ownFields b))) = dom (map_of (ownFields a))"
      by (auto simp: result split: option.splits if_splits)
    then show ?thesis by (simp add: dom_map_of_conv_image_fst)
  qed
  fix k v w
  assume r: "map_of (applyChanges ?chs (ownFields b)) k = Some v"
    and a: "map_of (ownFields a) k = Some w"
  have "wellFormed w"
    using wellFormed_ownFields [OF wa, of "(k, w)"] map_of_SomeD [OF a] by simp
  then have "isEqual w w" by (rule isEqual_refl)
  with r a show "isEqual v w"
    by (auto simp: result split: option.splits if_splits)
qed

lemma reapply_changes:
  assumes sig: "getObjectSignature b = getObjectSignature a"
    and proto: "lit ''__proto__'' \<notin> set (objectKeys b) \<union> set (objectKeys a)"
    and wb: "wellFormed b" and wa: "wellFormed a"
  shows "isEqual (JObj (applyChanges (calculateFieldChanges b a) (ownFields b)))
           (JObj (ownFields a))"
proof (rule reapply_changes_own [OF _ proto wb wa])
  fix k
  assume k: "k \<in> set (objectKeys b) \<union> set (objectKeys a)"
  have "getProp b k = map_of (ownFields b) k"
    using sig k by (rule getProp_own)
  moreover have "getProp a k = map_of (ownFields a) k"
    using getProp_own [of a b k] sig k by auto
  ultimately show "getProp b k = map_of (ownFields b) k \<and> getProp a k = map_of (ownFields a) k"
    by simp
qed

section \<open>The lookups by key value\<close>

lemma populateStep_map:
  "fst (populateStep sd conf (m, errs) x) =
     (if isObject x then
        (case selectedKey conf (getObjectSignature x) of
           None \<Rightarrow> m
         | Some kf \<Rightarrow>
             (case validKeyValue x kf of
                None \<Rightarrow> m
              | Some k \<Rightarrow> m(k \<mapsto> \<lparr>item = x, entrySignature = getObjectSignature x, keyField = kf\<rparr>)))
      else m)"
  by (simp add: populateStep_def Let_def split: option.splits)

lemma populateStep_side:
  "fst (populateStep sd conf st x) = fst (populateStep sd' conf (fst st, errs') x)"
  by (cases st) (simp add: populateStep_map)

lemma populate_side_aux:
  "fst st = fst st' \<Longrightarrow>
     fst (foldl (populateStep sd conf) st xs) = fst (foldl (populateStep sd' conf) st' xs)"
proof (induction xs arbitrary: st st')
  case Nil
  then show ?case by simp
next
  case (Cons x xs)
  have "fst (populateStep sd conf st x) = fst (populateStep sd' conf st' x)"
    using Cons.prems populateStep_side [of sd conf st x sd' "snd st'"] by simp
  then show ?case by (simp add: Cons.IH)
qed

lemma populate_side:
  "fst (populate sd conf errs xs) = fst (populate sd' conf errs' xs)"
  unfolding populate_def by (rule populate_side_aux) simp

lemma validMap_step:
  assumes "validMap conf S m" and "x \<in> S"
  shows "validMap conf S (fst (populateStep sd conf (m, errs) x))"
proof (unfold validMap_def, intro allI impI)
  fix k e
  assume h: "fst (populateStep sd conf (m, errs) x) k = Some e"
  have old: "validEntry conf S k e" if "m k = Some e"
    using that assms(1) by (simp add: validMap_def)
  show "validEntry conf S k e"
  proof (cases "isObject x")
    case False
    with h show ?thesis by (simp add: populateStep_map old)
  next
    case obj: True
    show ?thesis
    proof (cases "selectedKey conf (getObjectSignature x)")
      case None
      with h obj show ?thesis by (simp add: populateStep_map old)
    next
      case (Some kf)
      show ?thesis
      proof (cases "validKeyValue x kf")
        case None
        with h obj Some show ?thesis by (simp add: populateStep_map old)
      next
        case (Some k')
        show ?thesis
        proof (cases "k = k'")
          case True
          with h obj \<open>selectedKey conf (getObjectSignature x) = Some kf\<close> Some
          have "e = \<lparr>item = x, entrySignature = getObjectSignature x, keyField = kf\<rparr>"
            by (simp add: populateStep_map)
          with obj \<open>selectedKey conf (getObjectSignature x) = Some kf\<close> Some True assms(2)
          show ?thesis by (simp add: validEntry_def)
        next
          case False
          with h obj \<open>selectedKey conf (getObjectSignature x) = Some kf\<close> Some
          show ?thesis by (simp add: populateStep_map old)
        qed
      qed
    qed
  qed
qed

lemma validMap_fold:
  "validMap conf S (fst st) \<Longrightarrow> set xs \<subseteq> S \<Longrightarrow>
     validMap conf S (fst (foldl (populateStep sd conf) st xs))"
proof (induction xs arbitrary: st)
  case Nil
  then show ?case by simp
next
  case (Cons x xs)
  obtain m errs where st: "st = (m, errs)" by (cases st)
  with Cons.prems have "validMap conf S (fst (populateStep sd conf st x))"
    by (simp add: validMap_step)
  with Cons show ?case by simp
qed

lemma validMap_populate: "validMap conf (set xs) (fst (populate sd conf errs xs))"
  unfolding populate_def by (rule validMap_fold) (simp_all add: validMap_def)

lemma validEntry_lookup:
  "validEntry conf S k e \<Longrightarrow> getProp (item e) (keyField e) = Some (JStr k)"
  by (auto simp: validEntry_def validKeyValue_def split: option.splits json.splits if_splits)


lemma lookupByKey_SomeD:
  "lookupByKey m x kf = Some (k, e) \<Longrightarrow> getProp x kf = Some (JStr k) \<and> m k = Some e"
  by (auto simp: lookupByKey_def split: option.splits json.splits)

lemma lookupByKey_valid:
  "validEntry conf S k e \<Longrightarrow> m k = Some e \<Longrightarrow> lookupByKey m (item e) (keyField e) = Some (k, e)"
  by (simp add: lookupByKey_def validEntry_lookup)






section \<open>The two classification loops\<close>

lemma afterStep_cases [case_names skip unkeyed fresh replaced modified]:
  obtains
    (skip) "afterStep conf bm am (n, m, d) x = (n, m, d)"
      and "afterStep conf bm am ([], [], []) x = ([], [], [])"
  | (unkeyed) "isObject x" and "selectedKey conf (getObjectSignature x) = None"
      and "afterStep conf bm am (n, m, d) x =
             (n @ [\<lparr>entryItem = x, objectSignature = getObjectSignature x, keyFieldUsed = None\<rparr>], m, d)"
      and "afterStep conf bm am ([], [], []) x =
             ([\<lparr>entryItem = x, objectSignature = getObjectSignature x, keyFieldUsed = None\<rparr>], [], [])"
  | (fresh) kf k ae where "isObject x" and "selectedKey conf (getObjectSignature x) = Some kf"
      and "lookupByKey am x kf = Some (k, ae)" and "bm k = None"
      and "afterStep conf bm am (n, m, d) x =
             (n @ [\<lparr>entryItem = item ae, objectSignature = getObjectSignature x,
                     keyFieldUsed = Some kf\<rparr>], m, d)"
      and "afterStep conf bm am ([], [], []) x =
             ([\<lparr>entryItem = item ae, objectSignature = getObjectSignature x,
                 keyFieldUsed = Some kf\<rparr>], [], [])"
  | (replaced) kf k ae be where "isObject x"
      and "selectedKey conf (getObjectSignature x) = Some kf"
      and "lookupByKey am x kf = Some (k, ae)" and "bm k = Some be"
      and "entrySignature be \<noteq> entrySignature ae"
      and "afterStep conf bm am (n, m, d) x =
             (n @ [\<lparr>entryItem = item ae, objectSignature = entrySignature ae,
                     keyFieldUsed = Some (keyField ae)\<rparr>],
              m,
              d @ [\<lparr>entryItem = item be, objectSignature = entrySignature be,
                     keyFieldUsed = Some (keyField be)\<rparr>])"
      and "afterStep conf bm am ([], [], []) x =
             ([\<lparr>entryItem = item ae, objectSignature = entrySignature ae,
                 keyFieldUsed = Some (keyField ae)\<rparr>],
              [],
              [\<lparr>entryItem = item be, objectSignature = entrySignature be,
                 keyFieldUsed = Some (keyField be)\<rparr>])"
  | (modified) kf k ae be where "isObject x"
      and "selectedKey conf (getObjectSignature x) = Some kf"
      and "lookupByKey am x kf = Some (k, ae)" and "bm k = Some be"
      and "entrySignature be = entrySignature ae"
      and "\<not> isEqual (item be) (item ae)"
      and "hasChanges (pairChanges kf (item be) (item ae))"
      and "afterStep conf bm am (n, m, d) x =
             (n,
              m @ [\<lparr>keyFieldValue = k, modKeyFieldUsed = kf,
                     modObjectSignature = getObjectSignature x,
                     before = item be, after = item ae,
                     changes = pairChanges kf (item be) (item ae)\<rparr>],
              d)"
      and "afterStep conf bm am ([], [], []) x =
             ([],
              [\<lparr>keyFieldValue = k, modKeyFieldUsed = kf,
                 modObjectSignature = getObjectSignature x,
                 before = item be, after = item ae,
                 changes = pairChanges kf (item be) (item ae)\<rparr>],
              [])"
proof (cases "isObject x")
  case False
  then show ?thesis by (intro skip) (simp_all add: afterStep_def)
next
  case obj: True
  show ?thesis
  proof (cases "selectedKey conf (getObjectSignature x)")
    case None
    with obj show ?thesis by (intro unkeyed) (simp_all add: afterStep_def)
  next
    case kf: (Some kf)
    show ?thesis
    proof (cases "lookupByKey am x kf")
      case None
      with obj kf show ?thesis by (intro skip) (simp_all add: afterStep_def)
    next
      case (Some p)
      obtain k ae where p: "p = (k, ae)" by (cases p)
      show ?thesis
      proof (cases "bm k")
        case None
        with obj kf Some p show ?thesis
          by (intro fresh [of kf k ae]) (simp_all add: afterStep_def)
      next
        case be: (Some be)
        show ?thesis
        proof (cases "entrySignature be = entrySignature ae")
          case False
          with obj kf Some p be show ?thesis
            by (intro replaced [of kf k ae be]) (simp_all add: afterStep_def)
        next
          case same: True
          show ?thesis
          proof (cases "\<not> isEqual (item be) (item ae) \<and> hasChanges (pairChanges kf (item be) (item ae))")
            case True
            with obj kf Some p be same show ?thesis
              by (intro modified [of kf k ae be]) (simp_all add: afterStep_def Let_def)
          next
            case False
            with obj kf Some p be same show ?thesis
              by (intro skip) (auto simp: afterStep_def Let_def)
          qed
        qed
      qed
    qed
  qed
qed

lemma afterStep_append:
  "afterStep conf bm am (n, m, d) x =
     (n @ fst (afterStep conf bm am ([], [], []) x),
      m @ fst (snd (afterStep conf bm am ([], [], []) x)),
      d @ snd (snd (afterStep conf bm am ([], [], []) x)))"
  by (rule afterStep_cases [where conf = conf and bm = bm and am = am and n = n and m = m
        and d = d and x = x]) simp_all

lemma afterLoop_append:
  "foldl (afterStep conf bm am) (n, m, d) xs =
     (n @ concat (map (\<lambda>x. fst (afterStep conf bm am ([], [], []) x)) xs),
      m @ concat (map (\<lambda>x. fst (snd (afterStep conf bm am ([], [], []) x))) xs),
      d @ concat (map (\<lambda>x. snd (snd (afterStep conf bm am ([], [], []) x))) xs))"
proof (induction xs arbitrary: n m d)
  case Nil
  then show ?case by simp
next
  case (Cons x xs)
  show ?case
    by (simp only: foldl_Cons afterStep_append [of conf bm am n m d x] Cons.IH)
       simp
qed

lemma beforeStep_cases [case_names skip unkeyed keyed]:
  obtains
    (skip) "beforeStep conf bm am as dels x = dels"
  | (unkeyed) "isObject x" and "selectedKey conf (getObjectSignature x) = None"
      and "\<not> list_ex (\<lambda>afterItem. isObject afterItem \<and>
              getObjectSignature afterItem = getObjectSignature x) as"
      and "beforeStep conf bm am as dels x =
             dels @ [\<lparr>entryItem = x, objectSignature = getObjectSignature x, keyFieldUsed = None\<rparr>]"
  | (keyed) kf k be where "isObject x"
      and "selectedKey conf (getObjectSignature x) = Some kf"
      and "lookupByKey bm x kf = Some (k, be)" and "am k = None"
      and "\<not> list_ex
              (\<lambda>de. objectSignature de = entrySignature be \<and>
                    map_of (entryObject de) (keyField be) = Some (JStr k))
              dels"
      and "beforeStep conf bm am as dels x =
             dels @ [\<lparr>entryItem = item be, objectSignature = getObjectSignature x,
                       keyFieldUsed = Some kf\<rparr>]"
proof (cases "isObject x")
  case False
  then show ?thesis by (intro skip) (simp add: beforeStep_def)
next
  case obj: True
  show ?thesis
  proof (cases "selectedKey conf (getObjectSignature x)")
    case None
    show ?thesis
    proof (cases "list_ex (\<lambda>afterItem. isObject afterItem \<and>
              getObjectSignature afterItem = getObjectSignature x) as")
      case True
      with obj None show ?thesis by (intro skip) (simp add: beforeStep_def)
    next
      case False
      with obj None show ?thesis by (intro unkeyed) (simp_all add: beforeStep_def)
    qed
  next
    case kf: (Some kf)
    show ?thesis
    proof (cases "lookupByKey bm x kf")
      case None
      with obj kf show ?thesis by (intro skip) (simp add: beforeStep_def)
    next
      case (Some p)
      obtain k be where p: "p = (k, be)" by (cases p)
      show ?thesis
      proof (cases "am k = None \<and> \<not> list_ex
              (\<lambda>de. objectSignature de = entrySignature be \<and>
                    map_of (entryObject de) (keyField be) = Some (JStr k))
              dels")
        case True
        with obj kf Some p show ?thesis
          by (intro keyed [of kf k be]) (simp_all add: beforeStep_def)
      next
        case False
        with obj kf Some p show ?thesis
          by (intro skip) (auto simp: beforeStep_def)
      qed
    qed
  qed
qed

lemma beforeStep_mono: "set dels \<subseteq> set (beforeStep conf bm am as dels x)"
  by (rule beforeStep_cases [where conf = conf and bm = bm and am = am and as = as
        and dels = dels and x = x]) auto

lemma beforeLoop_mono: "set dels \<subseteq> set (foldl (beforeStep conf bm am as) dels xs)"
proof (induction xs arbitrary: dels)
  case Nil
  then show ?case by simp
next
  case (Cons x xs)
  from beforeStep_mono [of dels conf bm am as x] Cons.IH [of "beforeStep conf bm am as dels x"]
  show ?case by auto
qed



text \<open>Removing duplicate identities keeps entries of the list, one for each identity.\<close>

lemma dedup_fold_entries:
  "(\<forall>p \<in> set m. fst p = f (snd p) \<and> snd p \<in> S) \<Longrightarrow> set xs \<subseteq> S \<Longrightarrow>
     (\<forall>p \<in> set (foldl (\<lambda>m e. objSet m (f e) e) m xs). fst p = f (snd p) \<and> snd p \<in> S)"
proof (induction xs arbitrary: m)
  case Nil
  then show ?case by simp
next
  case (Cons x xs)
  have 1: "\<forall>p \<in> set (objSet m (f x) x). fst p = f (snd p) \<and> snd p \<in> S"
    using Cons.prems(1,2) set_objSet_subset [of m "f x" x] by auto
  from Cons.prems(2) have 3: "set xs \<subseteq> S" by simp
  from Cons.IH [OF 1 3] show ?case by simp
qed

lemma dedup_fold_keys:
  "set (map fst (foldl (\<lambda>m e. objSet m (f e) e) m xs)) = set (map fst m) \<union> f ` set xs"
proof (induction xs arbitrary: m)
  case Nil
  then show ?case by simp
next
  case (Cons x xs)
  have "set (map fst (objSet m (f x) x)) = insert (f x) (set (map fst m))"
    by (simp add: keys_objSet) auto
  with Cons.IH [of "objSet m (f x) x"] show ?case by auto
qed


lemma ids_dedupById: "f ` set (dedupById f xs) = f ` set xs"
proof -
  let ?m = "foldl (\<lambda>m e. objSet m (f e) e) [] xs"
  have inv: "\<forall>p \<in> set ?m. fst p = f (snd p) \<and> snd p \<in> set xs"
    by (rule dedup_fold_entries) simp_all
  then have "map (f \<circ> snd) ?m = map fst ?m" by (intro map_cong) auto
  then have "set (map f (dedupById f xs)) = set (map fst ?m)"
    by (simp add: dedupById_def)
  also have "\<dots> = f ` set xs" by (simp only: dedup_fold_keys) simp
  finally show ?thesis by simp
qed


section \<open>The result of a comparison\<close>

lemma populate_after_lookup: "fst (populate After conf errs as) = afterLookup conf as"
  unfolding afterLookup_def by (rule populate_side)

lemma classify_modified:
  "modifiedEntries (classify conf bs as) =
     concat (map (\<lambda>x. fst (snd (afterStep conf (beforeLookup conf bs) (afterLookup conf as)
                                  ([], [], []) x))) as)"
  by (simp add: classify_def case_prod_beta populate_after_lookup
        beforeLookup_def [symmetric] afterLoop_append)




lemma diff_Inr:
  assumes "diff beforeJson afterJson conf = Inr r"
  obtains bs as where "beforeJson = JArr bs" and "afterJson = JArr as"
    and "r = classify conf bs as"
    and "missingKeySelection (fst (analyzeJsonStructures beforeJson))
           (fst (analyzeJsonStructures afterJson)) conf bs as = None"
proof -
  from assms obtain bs as where b: "beforeJson = JArr bs" and a: "afterJson = JArr as"
    by (auto simp: diff_def compareJsons_def split: json.splits)
  with assms have "r = classify conf bs as"
    and "missingKeySelection (fst (analyzeJsonStructures beforeJson))
           (fst (analyzeJsonStructures afterJson)) conf bs as = None"
    by (auto simp: diff_def compareJsons_def split: option.splits)
  with a b that show thesis by blast
qed

lemma validMap_beforeLookup: "validMap conf (set bs) (beforeLookup conf bs)"
  unfolding beforeLookup_def by (rule validMap_populate)

lemma validMap_afterLookup: "validMap conf (set as) (afterLookup conf as)"
  unfolding afterLookup_def by (rule validMap_populate)

text \<open>Every modified entry pairs the two lookup entries of its key value.\<close>

lemma modified_sound:
  assumes "m \<in> set (modifiedEntries (classify conf bs as))"
  obtains be ae where "beforeLookup conf bs (keyFieldValue m) = Some be"
    and "afterLookup conf as (keyFieldValue m) = Some ae"
    and "entrySignature be = entrySignature ae"
    and "before m = item be" and "after m = item ae"
    and "changes m = calculateFieldChanges (item be) (item ae)"
    and "hasChanges (changes m)"
    and "selectedKey conf (modObjectSignature m) = Some (modKeyFieldUsed m)"
proof -
  let ?bm = "beforeLookup conf bs" and ?am = "afterLookup conf as"
  from assms obtain x where "x \<in> set as"
    and mem: "m \<in> set (fst (snd (afterStep conf ?bm ?am ([], [], []) x)))"
    by (auto simp: classify_modified)
  show thesis
  proof (rule afterStep_cases [where conf = conf and bm = ?bm and am = ?am and n = "[]"
        and m = "[]" and d = "[]" and x = x])
    assume "afterStep conf ?bm ?am ([], [], []) x = ([], [], [])"
    with mem show thesis by simp
  next
    assume "afterStep conf ?bm ?am ([], [], []) x =
             ([\<lparr>entryItem = x, objectSignature = getObjectSignature x, keyFieldUsed = None\<rparr>], [], [])"
    with mem show thesis by simp
  next
    fix kf k ae
    assume "afterStep conf ?bm ?am ([], [], []) x =
             ([\<lparr>entryItem = item ae, objectSignature = getObjectSignature x,
                 keyFieldUsed = Some kf\<rparr>], [], [])"
    with mem show thesis by simp
  next
    fix kf k ae be
    assume "afterStep conf ?bm ?am ([], [], []) x =
             ([\<lparr>entryItem = item ae, objectSignature = entrySignature ae,
                 keyFieldUsed = Some (keyField ae)\<rparr>],
              [],
              [\<lparr>entryItem = item be, objectSignature = entrySignature be,
                 keyFieldUsed = Some (keyField be)\<rparr>])"
    with mem show thesis by simp
  next
    fix kf k ae be
    assume sk: "selectedKey conf (getObjectSignature x) = Some kf"
      and l: "lookupByKey ?am x kf = Some (k, ae)" and b: "?bm k = Some be"
      and s: "entrySignature be = entrySignature ae"
      and h: "hasChanges (pairChanges kf (item be) (item ae))"
      and r: "afterStep conf ?bm ?am ([], [], []) x =
             ([],
              [\<lparr>keyFieldValue = k, modKeyFieldUsed = kf,
                 modObjectSignature = getObjectSignature x,
                 before = item be, after = item ae,
                 changes = pairChanges kf (item be) (item ae)\<rparr>],
              [])"
    from mem r have m: "m = \<lparr>keyFieldValue = k, modKeyFieldUsed = kf,
                 modObjectSignature = getObjectSignature x,
                 before = item be, after = item ae,
                 changes = pairChanges kf (item be) (item ae)\<rparr>" by simp
    from l have "?am k = Some ae" by (simp add: lookupByKey_SomeD)
    with m b s h sk show thesis
      by (intro that [of be ae]) (simp_all add: pairChanges_eq)
  qed
qed

lemma validEntry_item: "validEntry conf S k e \<Longrightarrow> item e \<in> S"
  and validEntry_signature: "validEntry conf S k e \<Longrightarrow> entrySignature e = getObjectSignature (item e)"
  and validEntry_keyField: "validEntry conf S k e \<Longrightarrow> selectedKey conf (entrySignature e) = Some (keyField e)"
  by (auto simp: validEntry_def)

lemma wellFormed_item: "wellFormed (JArr xs) \<Longrightarrow> x \<in> set xs \<Longrightarrow> wellFormed x"
  by (simp add: wellFormedList_iff)


section \<open>The signatures of an inventory\<close>

lemma keys_structureStep:
  "fst ` set (structureStep m x) =
     fst ` set m \<union> (if isObject x then {getObjectSignature x} else {})"
proof -
  have "\<And>k v. fst ` set (objSet m k v) = insert k (fst ` set m)"
  proof -
    fix k :: jsString and v :: "jsString list \<times> json list"
    have "set (map fst (objSet m k v)) = insert k (set (map fst m))"
      by (simp add: keys_objSet) auto
    then show "fst ` set (objSet m k v) = insert k (fst ` set m)" by simp
  qed
  then show ?thesis
    by (auto simp: structureStep_def Let_def split: option.splits)
qed

lemma keys_structureMap:
  "fst ` set (foldl structureStep m xs) =
     fst ` set m \<union> getObjectSignature ` set (filter isObject xs)"
  by (induction xs arbitrary: m) (auto simp: keys_structureStep)

lemma signature_toStructure: "signature (toStructure p) = fst p"
  by (cases p) (simp add: toStructure_def)

lemma inventory_signatures:
  "signature ` set (fst (analyzeJsonStructures v)) =
     (case v of
        JArr xs \<Rightarrow> if list_all isObject xs then getObjectSignature ` set xs else {}
      | _ \<Rightarrow> {})"
proof (cases v)
  case (JArr xs)
  show ?thesis
  proof (cases "list_all isObject xs")
    case True
    then have f: "filter isObject xs = xs" by (simp add: list_all_iff)
    from True have ne: "\<not> list_ex (\<lambda>item. \<not> isObject item) xs"
      by (simp add: list_all_iff list_ex_iff)
    have "signature ` set (map toStructure (foldl structureStep [] xs))
            = fst ` set (foldl structureStep [] xs)"
      by (simp add: image_image signature_toStructure)
    also have "\<dots> = getObjectSignature ` set xs"
      by (simp add: keys_structureMap f)
    finally show ?thesis using JArr True ne
      by (simp add: analyzeJsonStructures_def)
  next
    case False
    then have "list_ex (\<lambda>item. \<not> isObject item) xs"
      by (simp add: list_all_iff list_ex_iff)
    with JArr False show ?thesis by (simp add: analyzeJsonStructures_def)
  qed
qed (simp_all add: analyzeJsonStructures_def)

lemma inventory_active:
  assumes "sig \<in> signature ` set (fst (analyzeJsonStructures (JArr bs)))"
  shows "sig \<in> set (activeSignatures bs as)"
proof -
  from assms have "list_all isObject bs" and "sig \<in> getObjectSignature ` set bs"
    by (auto simp: inventory_signatures split: if_splits)
  then show ?thesis
    by (auto simp: activeSignatures_def set_newSet list_all_iff)
qed

lemma inventory_is_array:
  "sig \<in> signature ` set (fst (analyzeJsonStructures v)) \<Longrightarrow> \<exists>xs. v = JArr xs"
  by (cases v) (auto simp: inventory_signatures)

lemma find_SomeD: "find P xs = Some x \<Longrightarrow> P x \<and> x \<in> set xs"
  by (induction xs) (auto split: if_splits)

lemma list_ex_signature: "list_ex (\<lambda>s. signature s = sig) xs \<longleftrightarrow> sig \<in> signature ` set xs"
  by (induction xs) auto

text \<open>Shape analysis lists every signature once.\<close>

lemma distinct_structureStep:
  "distinct (map fst m) \<Longrightarrow> distinct (map fst (structureStep m x))"
  by (auto simp: structureStep_def Let_def distinct_objSet split: option.splits)

lemma distinct_structureMap:
  "distinct (map fst m) \<Longrightarrow> distinct (map fst (foldl structureStep m xs))"
  by (induction xs arbitrary: m) (simp_all add: distinct_structureStep)

lemma inventory_distinct: "distinct (map signature (fst (analyzeJsonStructures v)))"
proof (cases v)
  case (JArr xs)
  have "map signature (map toStructure (foldl structureStep [] xs)) =
          map fst (foldl structureStep [] xs)"
    by (simp add: signature_toStructure)
  moreover have "distinct (map fst (foldl structureStep [] xs))"
    by (rule distinct_structureMap) simp
  ultimately have "distinct (map signature (map toStructure (foldl structureStep [] xs)))"
    by (simp only:)
  then have "distinct (map signature
      (sort_key signature (map toStructure (foldl structureStep [] xs))))"
    by (simp only: distinct_map distinct_sort set_sort) 
  with JArr show ?thesis by (simp add: analyzeJsonStructures_def)
qed (simp_all add: analyzeJsonStructures_def)

section \<open>The modified entries of the single-key comparator\<close>

lemma parseJson_Inr:
  assumes "parseJson parsed kf = Inr items"
  shows "parsed = JArr items"
    and "\<And>itm. itm \<in> set items \<Longrightarrow> \<exists>s. getProp itm kf = Some (JStr s)"
proof -
  from assms show p: "parsed = JArr items"
    by (auto simp: parseJson_def split: if_splits json.splits)
  fix itm
  assume "itm \<in> set items"
  moreover from assms p
  have "list_all (\<lambda>itm. isObject itm \<and>
          (case getProp itm kf of Some (JStr s) \<Rightarrow> \<not> trimIsEmpty s | _ \<Rightarrow> False)) items"
    by (simp add: parseJson_def split: if_splits)
  ultimately have "case getProp itm kf of Some (JStr s) \<Rightarrow> \<not> trimIsEmpty s | _ \<Rightarrow> False"
    by (simp add: list_all_iff)
  then show "\<exists>s. getProp itm kf = Some (JStr s)"
    by (cases "getProp itm kf") (auto split: json.splits)
qed

lemma keyValueOf_prop:
  "getProp itm kf = Some (JStr s) \<Longrightarrow> getProp itm kf = Some (JStr (keyValueOf itm kf))"
  by (simp add: keyValueOf_def)

lemma toMap_single_fold:
  assumes "(k, itm) \<in> set (foldl (\<lambda>m itm. objSet m (keyValueOf itm kf) itm) m items)"
  shows "(k, itm) \<in> set m \<or> (itm \<in> set items \<and> keyValueOf itm kf = k)"
  using assms
proof (induction items arbitrary: m)
  case Nil
  then show ?case by simp
next
  case (Cons x xs)
  from Cons.IH [OF Cons.prems [simplified]]
  show ?case using set_objSet_subset [of m "keyValueOf x kf" x] by auto
qed

lemma toMap_single_entry:
  assumes "(k, itm) \<in> set (toMap_single kf items)"
  shows "itm \<in> set items \<and> keyValueOf itm kf = k"
  using toMap_single_fold [of k itm kf "[]" items] assms by (simp add: toMap_single_def)

lemma afterStep_single_mods:
  assumes "m \<in> set (snd (foldl (afterStep_single kf bm) (news, mods) am))"
  shows "m \<in> set mods \<or>
    (\<exists>k b a. (k, a) \<in> set am \<and> map_of bm k = Some b \<and>
       m = \<lparr>keyFieldValue_single = k, before_single = b, after_single = a,
            changes_single = pairChanges kf b a\<rparr>)"
  using assms
proof (induction am arbitrary: news mods)
  case Nil
  then show ?case by simp
next
  case (Cons e es)
  obtain news' mods' where st: "afterStep_single kf bm (news, mods) e = (news', mods')"
    by (cases "afterStep_single kf bm (news, mods) e")
  from Cons.prems st have "m \<in> set (snd (foldl (afterStep_single kf bm) (news', mods') es))"
    by simp
  from Cons.IH [OF this] consider "m \<in> set mods'"
    | "\<exists>k b a. (k, a) \<in> set es \<and> map_of bm k = Some b \<and>
         m = \<lparr>keyFieldValue_single = k, before_single = b, after_single = a,
              changes_single = pairChanges kf b a\<rparr>"
    by blast
  then show ?case
  proof cases
    case 1
    with st show ?thesis
      by (cases e) (auto simp: afterStep_single_def Let_def split: option.splits if_splits)
  next
    case 2
    then show ?thesis by auto
  qed
qed

lemma compareJsons_single_modified:
  assumes r: "compareJsons_single kf beforeJson afterJson = Inr r"
    and m: "m \<in> set (modifiedEntries_single r)"
  obtains bs as where "beforeJson = JArr bs" and "afterJson = JArr as"
    and "before_single m \<in> set bs" and "after_single m \<in> set as"
    and "getProp (before_single m) kf = Some (JStr (keyFieldValue_single m))"
    and "getProp (after_single m) kf = Some (JStr (keyFieldValue_single m))"
    and "changes_single m = calculateFieldChanges (before_single m) (after_single m)"
proof -
  from r obtain bs as where pb: "parseJson beforeJson kf = Inr bs"
    and pa: "parseJson afterJson kf = Inr as"
    and res: "r = (case foldl (afterStep_single kf (toMap_single kf bs)) ([], [])
                          (toMap_single kf as) of
                     (news, mods) \<Rightarrow>
                       \<lparr>newEntries_single = news, modifiedEntries_single = mods,
                        deletedEntries_single =
                          foldl (beforeStep_single (toMap_single kf as)) []
                            (toMap_single kf bs)\<rparr>)"
    by (auto simp: compareJsons_single_def Let_def split: if_splits sum.splits prod.splits)
  from res have mods: "modifiedEntries_single r =
      snd (foldl (afterStep_single kf (toMap_single kf bs)) ([], []) (toMap_single kf as))"
    by (simp split: prod.splits)
  from m mods afterStep_single_mods [of m kf "toMap_single kf bs" "[]" "[]" "toMap_single kf as"]
  obtain k b a where ka: "(k, a) \<in> set (toMap_single kf as)"
    and kb: "map_of (toMap_single kf bs) k = Some b"
    and meq: "m = \<lparr>keyFieldValue_single = k, before_single = b, after_single = a,
                   changes_single = pairChanges kf b a\<rparr>"
    by auto
  from ka have a: "a \<in> set as" "keyValueOf a kf = k"
    using toMap_single_entry by blast+
  from map_of_SomeD [OF kb] have b: "b \<in> set bs" "keyValueOf b kf = k"
    using toMap_single_entry by blast+
  from parseJson_Inr(2) [OF pb b(1)] obtain s where "getProp b kf = Some (JStr s)" by blast
  then have gb: "getProp b kf = Some (JStr k)" using keyValueOf_prop b(2) by simp
  from parseJson_Inr(2) [OF pa a(1)] obtain s' where "getProp a kf = Some (JStr s')" by blast
  then have ga: "getProp a kf = Some (JStr k)" using keyValueOf_prop a(2) by simp
  show thesis
    using parseJson_Inr(1) [OF pb] parseJson_Inr(1) [OF pa] a(1) b(1) ga gb
    by (intro that [of bs as]) (simp_all add: meq pairChanges_eq)
qed

lemma hiddenLength_own:
  assumes "\<not> hiddenLength b a"
    and "k \<in> set (objectKeys b) \<union> set (objectKeys a)"
  shows "getProp b k = map_of (ownFields b) k"
proof (cases b)
  case (JArr xs)
  from JArr have "(lit ''length'') \<notin> set (objectKeys b)"
    using length_not_key_of_array_shape [of b xs] by simp
  moreover from assms(1) JArr have "(lit ''length'') \<notin> set (objectKeys a)"
    by (simp add: hiddenLength_def)
  ultimately have "k \<noteq> lit ''length''" using assms(2) by auto
  with JArr show ?thesis by simp
qed simp_all

section \<open>The three lists and the identity of an entry\<close>


section \<open>Comparing a collection with itself\<close>






section \<open>Field-change completeness\<close>

text \<open>
  For every modified entry that a comparison of parsed inputs emits, and whose records
  have no field named \<^verbatim>\<open>__proto__\<close>, re-applying the change set to the before record
  (deleting the removed fields, replacing the changed fields and inserting the added
  fields with their after-values) gives the after record: the same fields, with deeply
  equal values.
\<close>

theorem reapplied_changes_give_after_record:
  assumes "diff beforeJson afterJson conf = Inr r"
    and "wellFormed beforeJson" and "wellFormed afterJson"
    and "m \<in> set (modifiedEntries r)"
    and "lit ''__proto__'' \<notin> set (objectKeys (before m)) \<union> set (objectKeys (after m))"
  shows "isEqual (JObj (applyChanges (changes m) (ownFields (before m))))
           (JObj (ownFields (after m)))"
proof -
  from assms(1) obtain bs as where b: "beforeJson = JArr bs" and a: "afterJson = JArr as"
    and r: "r = classify conf bs as"
    by (rule diff_Inr)
  from assms(4) r obtain be ae
    where be: "beforeLookup conf bs (keyFieldValue m) = Some be"
      and ae: "afterLookup conf as (keyFieldValue m) = Some ae"
      and sig: "entrySignature be = entrySignature ae"
      and m: "before m = item be" "after m = item ae"
        "changes m = calculateFieldChanges (item be) (item ae)"
    by (auto elim: modified_sound)
  from be validMap_beforeLookup [of conf bs]
  have vb: "validEntry conf (set bs) (keyFieldValue m) be" by (simp add: validMap_def)
  from ae validMap_afterLookup [of conf as]
  have va: "validEntry conf (set as) (keyFieldValue m) ae" by (simp add: validMap_def)
  have "getObjectSignature (item be) = getObjectSignature (item ae)"
    using validEntry_signature [OF vb] validEntry_signature [OF va] sig by simp
  moreover have "wellFormed (item be)"
    using validEntry_item [OF vb] assms(2) b by (auto intro: wellFormed_item)
  moreover have "wellFormed (item ae)"
    using validEntry_item [OF va] assms(3) a by (auto intro: wellFormed_item)
  moreover have "lit ''__proto__'' \<notin> set (objectKeys (item be)) \<union> set (objectKeys (item ae))"
    using assms(5) m by simp
  ultimately show ?thesis unfolding m
    by (intro reapply_changes) simp_all
qed

theorem reapplied_changes_give_after_record_witness:
  "diff (JArr [recOld]) (JArr [recNew]) keyedOldNew =
     Inr \<lparr>newEntries = [], modifiedEntries = [modOldNew], deletedEntries = [], errors = []\<rparr>
   \<and> wellFormed (JArr [recOld]) \<and> wellFormed (JArr [recNew])
   \<and> lit ''__proto__'' \<notin> set (objectKeys (before modOldNew)) \<union> set (objectKeys (after modOldNew))
   \<and> isEqual (JObj (applyChanges (changes modOldNew) (ownFields (before modOldNew))))
         (JObj (ownFields (after modOldNew)))"
proof -
  have d: "diff (JArr [recOld]) (JArr [recNew]) keyedOldNew =
     Inr \<lparr>newEntries = [], modifiedEntries = [modOldNew], deletedEntries = [], errors = []\<rparr>"
    by code_simp
  have w1: "wellFormed (JArr [recOld])" by code_simp
  have w2: "wellFormed (JArr [recNew])" by code_simp
  have m: "modOldNew \<in> set (modifiedEntries
      \<lparr>newEntries = [], modifiedEntries = [modOldNew], deletedEntries = [], errors = []\<rparr>)"
    by simp
  have p: "lit ''__proto__'' \<notin> set (objectKeys (before modOldNew)) \<union> set (objectKeys (after modOldNew))"
    by code_simp
  from reapplied_changes_give_after_record [OF d w1 w2 m p] d w1 w2 p show ?thesis by simp
qed

text \<open>
  C3.  A field named \<^verbatim>\<open>__proto__\<close> is an own field of a parsed record, but the change set is
  filled by plain assignment, and under that name the assignment goes to the prototype
  setter and records nothing.  The comparison of \<^verbatim>\<open>[{"id":"1","a":1,"__proto__":1}]\<close> with
  \<^verbatim>\<open>[{"id":"1","a":2,"__proto__":2}]\<close>, under the key field \<^verbatim>\<open>id\<close> that the component selects by
  itself, emits one modified entry, and its change set holds the change of \<^verbatim>\<open>a\<close> only.
  Re-applying the change set to the before record leaves \<^verbatim>\<open>__proto__\<close> at 1, where the
  after record has 2.
\<close>

theorem proto_field_change_lost:
  "autoSelected (JArr [recProtoOld]) (JArr [recProtoNew]) (lit ''__proto__,a,id'') = Some (lit ''id'')
   \<and> diff (JArr [recProtoOld]) (JArr [recProtoNew])
         (autoSelected (JArr [recProtoOld]) (JArr [recProtoNew])) =
       Inr \<lparr>newEntries = [], modifiedEntries = [modProto], deletedEntries = [], errors = []\<rparr>
   \<and> applyChanges (changes modProto) (ownFields (before modProto)) =
       [(lit ''id'', JStr (lit ''1'')), (lit ''a'', JNum 2), (lit ''__proto__'', JNum 1)]
   \<and> ownFields (after modProto) =
       [(lit ''id'', JStr (lit ''1'')), (lit ''a'', JNum 2), (lit ''__proto__'', JNum 2)]
   \<and> \<not> isEqual (JObj (applyChanges (changes modProto) (ownFields (before modProto))))
           (JObj (ownFields (after modProto)))"
  by code_simp

section \<open>A change of signature\<close>

text \<open>
  C4.  Before: \<^verbatim>\<open>[{"id":"k","b":1},{"id":"m","b":2},{"name":"m","id":"k"},{"name":"z","id":" "}]\<close>;
  after: \<^verbatim>\<open>[{"id":"k","a":1}]\<close>; every key field is the one that the component selects by
  itself.  The after record is keyed by \<^verbatim>\<open>id\<close>, its key value \<^verbatim>\<open>k\<close> has the counterpart
  \<^verbatim>\<open>{"id":"k","b":1}\<close> in the before-side lookup, and the signatures differ.  The after record
  is listed as new and there is no modified entry, but the before record is not among the
  deleted entries: the loop over the before input lists \<^verbatim>\<open>{"name":"m","id":"k"}\<close> under the
  signature \<^verbatim>\<open>b,id\<close> of the record it was reading, which gives that entry the identity
  \<^verbatim>\<open>b,id::k\<close> of the replaced record and puts it in its place.
\<close>

theorem replaced_record_not_deleted:
  "autoSelected (JArr [recKB, recMB, recNameM, recNameZ]) (JArr [recKA]) (lit ''b,id'') =
     Some (lit ''id'')
   \<and> autoSelected (JArr [recKB, recMB, recNameM, recNameZ]) (JArr [recKA]) (lit ''id,name'') =
     Some (lit ''name'')
   \<and> autoSelected (JArr [recKB, recMB, recNameM, recNameZ]) (JArr [recKA]) (lit ''a,id'') =
     Some (lit ''id'')
   \<and> getObjectSignature recKA = lit ''a,id''
   \<and> validKeyValue recKA (lit ''id'') = Some (lit ''k'')
   \<and> beforeLookup (autoSelected (JArr [recKB, recMB, recNameM, recNameZ]) (JArr [recKA]))
         [recKB, recMB, recNameM, recNameZ] (lit ''k'') =
       Some \<lparr>item = recKB, entrySignature = lit ''b,id'', keyField = lit ''id''\<rparr>
   \<and> diff (JArr [recKB, recMB, recNameM, recNameZ]) (JArr [recKA])
         (autoSelected (JArr [recKB, recMB, recNameM, recNameZ]) (JArr [recKA])) =
       Inr \<lparr>newEntries =
              [\<lparr>entryItem = recKA, objectSignature = lit ''a,id'',
                keyFieldUsed = Some (lit ''id'')\<rparr>],
            modifiedEntries = [],
            deletedEntries =
              [\<lparr>entryItem = recNameM, objectSignature = lit ''b,id'',
                keyFieldUsed = Some (lit ''id'')\<rparr>,
               \<lparr>entryItem = recNameM, objectSignature = lit ''id,name'',
                keyFieldUsed = Some (lit ''name'')\<rparr>,
               \<lparr>entryItem = recNameZ, objectSignature = lit ''id,name'',
                keyFieldUsed = Some (lit ''name'')\<rparr>],
            errors = [DuplicateKey Before (lit ''m'') (lit ''name'') (lit ''id,name'')]\<rparr>
   \<and> makeEntryId (autoSelected (JArr [recKB, recMB, recNameM, recNameZ]) (JArr [recKA]))
         \<lparr>entryItem = recNameM, objectSignature = lit ''b,id'', keyFieldUsed = Some (lit ''id'')\<rparr> =
       lit ''b,id::k''
   \<and> makeEntryId (autoSelected (JArr [recKB, recMB, recNameM, recNameZ]) (JArr [recKA]))
         \<lparr>entryItem = recKB, objectSignature = lit ''b,id'', keyFieldUsed = Some (lit ''id'')\<rparr> =
       lit ''b,id::k''"
  by code_simp

section \<open>Automatic key selection\<close>

lemma keyedBySignature_objSet:
  "keyedBySignature m \<Longrightarrow> keyedBySignature (objSet m (signature s) s)"
  unfolding keyedBySignature_def
  using set_objSet_subset [of m "signature s" s]
  by (auto simp: distinct_objSet list_all_iff)

lemma keyedBySignature_before:
  "keyedBySignature m \<Longrightarrow> keyedBySignature (foldl (\<lambda>m s. objSet m (signature s) s) m bs)"
  by (induction bs arbitrary: m) (auto simp: keyedBySignature_objSet)

lemma keyedBySignature_merge:
  "keyedBySignature m \<Longrightarrow> keyedBySignature (mergeAfterStructure m s)"
  by (auto simp: mergeAfterStructure_def keyedBySignature_objSet split: option.splits)

lemma keyedBySignature_after:
  "keyedBySignature m \<Longrightarrow> keyedBySignature (foldl mergeAfterStructure m as)"
  by (induction as arbitrary: m) (auto simp: keyedBySignature_merge)

lemma keyedBySignature_all: "keyedBySignature (allAnalyzedStructures bs as)"
  unfolding allAnalyzedStructures_def
  by (intro keyedBySignature_after keyedBySignature_before) (simp add: keyedBySignature_def)

lemma map_of_before:
  "distinct (map signature bs) \<Longrightarrow> sig \<notin> signature ` set bs \<Longrightarrow>
     map_of (foldl (\<lambda>m s. objSet m (signature s) s) m bs) sig = map_of m sig"
  by (induction bs arbitrary: m) (auto simp: map_of_objSet)

lemma map_of_before_in:
  "distinct (map signature bs) \<Longrightarrow> sb \<in> set bs \<Longrightarrow>
     map_of (foldl (\<lambda>m s. objSet m (signature s) s) m bs) (signature sb) = Some sb"
proof (induction bs arbitrary: m)
  case Nil
  then show ?case by simp
next
  case (Cons b bs)
  show ?case
  proof (cases "sb = b")
    case True
    with Cons.prems have "signature sb \<notin> signature ` set bs" by auto
    with Cons.prems True show ?thesis by (simp add: map_of_before map_of_objSet)
  next
    case False
    with Cons show ?thesis by simp
  qed
qed

lemma map_of_merge_other:
  "sig \<noteq> signature s \<Longrightarrow> map_of (mergeAfterStructure m s) sig = map_of m sig"
  by (auto simp: mergeAfterStructure_def map_of_objSet split: option.splits)

lemma map_of_after_other:
  "sig \<notin> signature ` set as \<Longrightarrow> map_of (foldl mergeAfterStructure m as) sig = map_of m sig"
  by (induction as arbitrary: m) (auto simp: map_of_merge_other)

lemma map_of_after_in:
  "distinct (map signature as) \<Longrightarrow> sa \<in> set as \<Longrightarrow>
     map_of (foldl mergeAfterStructure m as) (signature sa) =
       (case map_of m (signature sa) of
          None \<Rightarrow> Some sa
        | Some held \<Rightarrow> if potentialKeyFields held = [] then Some sa else Some held)"
proof (induction as arbitrary: m)
  case Nil
  then show ?case by simp
next
  case (Cons a as)
  show ?case
  proof (cases "sa = a")
    case True
    with Cons.prems have "signature sa \<notin> signature ` set as" by auto
    then have "map_of (foldl mergeAfterStructure (mergeAfterStructure m a) as) (signature sa)
                 = map_of (mergeAfterStructure m a) (signature sa)"
      by (rule map_of_after_other)
    moreover have "map_of (mergeAfterStructure m a) (signature a) =
       (case map_of m (signature a) of
          None \<Rightarrow> Some a
        | Some held \<Rightarrow> if potentialKeyFields held = [] then Some a else Some held)"
      by (simp add: mergeAfterStructure_def map_of_objSet split: option.splits)
    ultimately show ?thesis unfolding True by simp
  next
    case False
    with Cons.prems have in_as: "sa \<in> set as" and d: "distinct (map signature as)"
      and notin: "signature a \<notin> signature ` set as" by auto
    from in_as notin have ne: "signature sa \<noteq> signature a" by (metis imageI)
    show ?thesis
      using Cons.IH [OF d in_as, of "mergeAfterStructure m a"] ne
      by (simp add: map_of_merge_other)
  qed
qed

lemma autoSelectStep_other:
  "sig \<noteq> signature (snd p) \<Longrightarrow> autoSelectStep m p sig = m sig"
  by (auto simp: autoSelectStep_def Let_def split: list.splits)

lemma autoSelectStep_sticky:
  "selectedKey m sig \<noteq> None \<Longrightarrow> autoSelectStep m p sig = m sig"
  by (cases "sig = signature (snd p)")
     (auto simp: autoSelectStep_def Let_def split: list.splits)

lemma autoSelect_sticky:
  "selectedKey m sig \<noteq> None \<Longrightarrow> foldl autoSelectStep m ps sig = m sig"
proof (induction ps arbitrary: m)
  case Nil
  then show ?case by simp
next
  case (Cons p ps)
  have eq: "autoSelectStep m p sig = m sig" using Cons.prems by (rule autoSelectStep_sticky)
  then have "selectedKey (autoSelectStep m p) sig \<noteq> None"
    using Cons.prems by (simp add: selectedKey_def)
  from Cons.IH [OF this] eq show ?case by simp
qed

lemma autoSelect_other:
  "sig \<notin> (signature \<circ> snd) ` set ps \<Longrightarrow> foldl autoSelectStep m ps sig = m sig"
  by (induction ps arbitrary: m) (auto simp: autoSelectStep_other)

lemma autoSelect_sets:
  "distinct (map (signature \<circ> snd) ps) \<Longrightarrow> p \<in> set ps \<Longrightarrow>
   potentialKeyFields (snd p) = [c] \<Longrightarrow> selectedKey m (signature (snd p)) = None \<Longrightarrow>
     foldl autoSelectStep m ps (signature (snd p)) = Some c"
proof (induction ps arbitrary: m)
  case Nil
  then show ?case by simp
next
  case (Cons q ps)
  show ?case
  proof (cases "p = q")
    case True
    with Cons.prems have "signature (snd p) \<notin> (signature \<circ> snd) ` set ps" by auto
    then have "foldl autoSelectStep (autoSelectStep m q) ps (signature (snd p))
                 = autoSelectStep m q (signature (snd p))"
      by (rule autoSelect_other)
    moreover have "autoSelectStep m q (signature (snd q)) = Some c"
      using True Cons.prems by (simp add: autoSelectStep_def)
    ultimately show ?thesis using True by simp
  next
    case False
    with Cons.prems have "p \<in> set ps"
      and "signature (snd q) \<notin> (signature \<circ> snd) ` set ps" by auto
    then have ne: "signature (snd p) \<noteq> signature (snd q)" by (metis comp_apply imageI)
    then have "selectedKey (autoSelectStep m q) (signature (snd p)) = None"
      using Cons.prems(4) by (simp add: selectedKey_def autoSelectStep_other)
    with Cons False show ?thesis by simp
  qed
qed

lemma keyedBySignature_distinct:
  "keyedBySignature m \<Longrightarrow> distinct (map (signature \<circ> snd) m)"
proof -
  assume k: "keyedBySignature m"
  then have "map (signature \<circ> snd) m = map fst m"
    by (auto simp: keyedBySignature_def list_all_iff)
  moreover have "distinct (map fst m)" using k by (simp add: keyedBySignature_def)
  ultimately show ?thesis by (simp only:)
qed

lemma resolveKeys_from_merged:
  assumes "map_of (allAnalyzedStructures bs as) sig = Some s"
    and "potentialKeyFields s = [c]" and "selectedKey m sig = None"
  shows "resolveKeys bs as m sig = Some c"
proof -
  have k: "keyedBySignature (allAnalyzedStructures bs as)" by (rule keyedBySignature_all)
  from assms(1) have mem: "(sig, s) \<in> set (allAnalyzedStructures bs as)" by (rule map_of_SomeD)
  with k have sig: "sig = signature s" by (auto simp: keyedBySignature_def list_all_iff)
  show ?thesis
    unfolding resolveKeys_def
    using autoSelect_sets [OF keyedBySignature_distinct [OF k] mem] assms(2,3) sig by simp
qed

text \<open>
  What the effect does, for inventories that list each signature once (as shape analysis
  produces them): a signature whose read is truthy keeps what the mapping has for it; a
  signature whose read is falsy is given the unique candidate of its structure in the
  before inventory; and it is given the unique candidate of its structure in the after
  inventory when the before inventory has no structure of that signature or one without
  any candidate.
\<close>

theorem resolveKeys_auto_select:
  assumes "distinct (map signature beforeStructures)"
    and "distinct (map signature afterStructures)"
  shows "(selectedKey mapping sig \<noteq> None \<longrightarrow>
            resolveKeys beforeStructures afterStructures mapping sig = mapping sig)
       \<and> (\<forall>s \<in> set beforeStructures.
            signature s = sig \<and> potentialKeyFields s = [c] \<and> selectedKey mapping sig = None \<longrightarrow>
            resolveKeys beforeStructures afterStructures mapping sig = Some c)
       \<and> (\<forall>s \<in> set afterStructures.
            signature s = sig \<and> potentialKeyFields s = [c] \<and> selectedKey mapping sig = None \<and>
            list_all (\<lambda>b. signature b = sig \<longrightarrow> potentialKeyFields b = []) beforeStructures \<longrightarrow>
            resolveKeys beforeStructures afterStructures mapping sig = Some c)"
proof (intro conjI impI ballI)
  assume "selectedKey mapping sig \<noteq> None"
  then show "resolveKeys beforeStructures afterStructures mapping sig = mapping sig"
    unfolding resolveKeys_def by (rule autoSelect_sticky)
next
  fix s
  assume s: "s \<in> set beforeStructures"
    and h: "signature s = sig \<and> potentialKeyFields s = [c] \<and> selectedKey mapping sig = None"
  let ?m0 = "foldl (\<lambda>m s. objSet m (signature s) s) [] beforeStructures"
  have m0: "map_of ?m0 sig = Some s"
    using map_of_before_in [OF assms(1) s] h by simp
  have "map_of (allAnalyzedStructures beforeStructures afterStructures) sig = Some s"
  proof (cases "sig \<in> signature ` set afterStructures")
    case True
    then obtain sa where "sa \<in> set afterStructures" "signature sa = sig" by auto
    with map_of_after_in [OF assms(2), of sa ?m0] m0 h show ?thesis
      by (simp add: allAnalyzedStructures_def)
  next
    case False
    with m0 show ?thesis by (simp add: allAnalyzedStructures_def map_of_after_other)
  qed
  with h show "resolveKeys beforeStructures afterStructures mapping sig = Some c"
    by (auto intro: resolveKeys_from_merged)
next
  fix s
  assume s: "s \<in> set afterStructures"
    and h: "signature s = sig \<and> potentialKeyFields s = [c] \<and> selectedKey mapping sig = None \<and>
            list_all (\<lambda>b. signature b = sig \<longrightarrow> potentialKeyFields b = []) beforeStructures"
  let ?m0 = "foldl (\<lambda>m s. objSet m (signature s) s) [] beforeStructures"
  have held: "\<And>held. map_of ?m0 sig = Some held \<Longrightarrow> potentialKeyFields held = []"
  proof -
    fix held assume a: "map_of ?m0 sig = Some held"
    have "sig \<in> signature ` set beforeStructures"
    proof (rule ccontr)
      assume "sig \<notin> signature ` set beforeStructures"
      from map_of_before [OF assms(1) this, of "[]"] a show False by simp
    qed
    then obtain sb where sb: "sb \<in> set beforeStructures" "signature sb = sig" by auto
    with map_of_before_in [OF assms(1) sb(1), of "[]"] a have "held = sb" by simp
    with sb h show "potentialKeyFields held = []" by (auto simp: list_all_iff)
  qed
  have "map_of (allAnalyzedStructures beforeStructures afterStructures) sig = Some s"
    using map_of_after_in [OF assms(2) s, of ?m0] h held
    by (auto simp: allAnalyzedStructures_def split: option.splits)
  with h show "resolveKeys beforeStructures afterStructures mapping sig = Some c"
    by (auto intro: resolveKeys_from_merged)
qed

theorem resolveKeys_auto_select_witness:
  "distinct (map signature
      [\<lparr>signature = lit ''id,name'', keys = [lit ''id'', lit ''name''], count = 1,
        potentialKeyFields = [lit ''id'']\<rparr>])
   \<and> distinct (map signature
      [\<lparr>signature = lit ''n,sku'', keys = [lit ''n'', lit ''sku''], count = 1,
        potentialKeyFields = [lit ''sku'']\<rparr>])
   \<and> selectedKey [lit ''id,name'' \<mapsto> lit ''name''] (lit ''id,name'') = Some (lit ''name'')
   \<and> resolveKeys
        [\<lparr>signature = lit ''id,name'', keys = [lit ''id'', lit ''name''], count = 1,
          potentialKeyFields = [lit ''id'']\<rparr>]
        [\<lparr>signature = lit ''n,sku'', keys = [lit ''n'', lit ''sku''], count = 1,
          potentialKeyFields = [lit ''sku'']\<rparr>]
        [lit ''id,name'' \<mapsto> lit ''name''] (lit ''id,name'') = Some (lit ''name'')
   \<and> selectedKey Map.empty (lit ''id,name'') = None
   \<and> resolveKeys
        [\<lparr>signature = lit ''id,name'', keys = [lit ''id'', lit ''name''], count = 1,
          potentialKeyFields = [lit ''id'']\<rparr>]
        [\<lparr>signature = lit ''n,sku'', keys = [lit ''n'', lit ''sku''], count = 1,
          potentialKeyFields = [lit ''sku'']\<rparr>]
        Map.empty (lit ''id,name'') = Some (lit ''id'')
   \<and> selectedKey Map.empty (lit ''n,sku'') = None
   \<and> resolveKeys
        [\<lparr>signature = lit ''id,name'', keys = [lit ''id'', lit ''name''], count = 1,
          potentialKeyFields = [lit ''id'']\<rparr>]
        [\<lparr>signature = lit ''n,sku'', keys = [lit ''n'', lit ''sku''], count = 1,
          potentialKeyFields = [lit ''sku'']\<rparr>]
        Map.empty (lit ''n,sku'') = Some (lit ''sku'')"
proof -
  let ?B = "[\<lparr>signature = lit ''id,name'', keys = [lit ''id'', lit ''name''], count = 1,
               potentialKeyFields = [lit ''id'']\<rparr>]"
  let ?A = "[\<lparr>signature = lit ''n,sku'', keys = [lit ''n'', lit ''sku''], count = 1,
               potentialKeyFields = [lit ''sku'']\<rparr>]"
  have dB: "distinct (map signature ?B)" and dA: "distinct (map signature ?A)" by simp_all
  have s1: "selectedKey [lit ''id,name'' \<mapsto> lit ''name''] (lit ''id,name'') = Some (lit ''name'')"
    by code_simp
  have s2: "selectedKey Map.empty (lit ''id,name'') = None" by code_simp
  have s3: "selectedKey Map.empty (lit ''n,sku'') = None" by code_simp
  have ne: "lit ''id,name'' \<noteq> lit ''n,sku''" by (simp add: lit_def)
  from resolveKeys_auto_select [OF dB dA, of "[lit ''id,name'' \<mapsto> lit ''name'']" "lit ''id,name''"] s1
  have r1: "resolveKeys ?B ?A [lit ''id,name'' \<mapsto> lit ''name''] (lit ''id,name'') =
      Some (lit ''name'')"
    by simp
  from resolveKeys_auto_select [OF dB dA, of Map.empty "lit ''id,name''" "lit ''id''"] s2
  have r2: "resolveKeys ?B ?A Map.empty (lit ''id,name'') = Some (lit ''id'')"
    by simp
  from resolveKeys_auto_select [OF dB dA, of Map.empty "lit ''n,sku''" "lit ''sku''"] s3 ne
  have r3: "resolveKeys ?B ?A Map.empty (lit ''n,sku'') = Some (lit ''sku'')"
    by simp
  from dB dA s1 s2 s3 r1 r2 r3 show ?thesis by simp
qed

text \<open>
  C5.  The records \<^verbatim>\<open>{"id":"1","name":"Alice"}\<close> before and \<^verbatim>\<open>{"id":"1","name":" "}\<close> after share
  the signature \<^verbatim>\<open>id,name\<close>.  In the after inventory the signature has exactly one potential
  key field, \<^verbatim>\<open>id\<close>, and the mapping has no entry for it; yet it stays unselected, because
  the effect keeps the structure of the before inventory, which offers two candidates,
  where its comment says that the after inventory is given priority.  The signature
  \<^verbatim>\<open>constructor\<close> of the record \<^verbatim>\<open>{"constructor":"x"}\<close> has exactly one potential key field and
  no entry either, and stays unselected because the read of the mapping finds the function
  that the mapping inherits.
\<close>

theorem unique_candidate_not_selected:
  "fst (analyzeJsonStructures (JArr [recAlice])) =
     [\<lparr>signature = lit ''id,name'', keys = [lit ''id'', lit ''name''], count = 1,
       potentialKeyFields = [lit ''id'', lit ''name'']\<rparr>]
   \<and> fst (analyzeJsonStructures (JArr [recBlankName])) =
     [\<lparr>signature = lit ''id,name'', keys = [lit ''id'', lit ''name''], count = 1,
       potentialKeyFields = [lit ''id'']\<rparr>]
   \<and> (Map.empty :: SelectedKeyConfig) (lit ''id,name'') = None
   \<and> resolveKeys
        (fst (analyzeJsonStructures (JArr [recAlice])))
        (fst (analyzeJsonStructures (JArr [recBlankName])))
        Map.empty (lit ''id,name'') = None
   \<and> fst (analyzeJsonStructures (JArr [recCtorKey])) =
     [\<lparr>signature = lit ''constructor'', keys = [lit ''constructor''], count = 1,
       potentialKeyFields = [lit ''constructor'']\<rparr>]
   \<and> (Map.empty :: SelectedKeyConfig) (lit ''constructor'') = None
   \<and> resolveKeys
        (fst (analyzeJsonStructures (JArr [recCtorKey])))
        (fst (analyzeJsonStructures (JArr [])))
        Map.empty (lit ''constructor'') = None"
  by code_simp

section \<open>The validation of the key selections\<close>

lemma missingKeySelection_SomeD:
  "missingKeySelection B A m bs as = Some sig \<Longrightarrow>
     sig \<in> signature ` set B \<and> sig \<in> signature ` set A \<and> selectedKey m sig = None"
  unfolding missingKeySelection_def
  by (drule find_SomeD) (simp add: list_ex_signature)

text \<open>
  The comparison fails with \<open>MissingKeySelection\<close> exactly when the read of the key
  selections is falsy for some signature of both inventories.  The signature it names is
  such a signature, so one that is in a single inventory never causes the failure; and the
  failure is the whole outcome, no result comes with it.
\<close>

theorem gate_fails_on_falsy_read:
  "(diff beforeJson afterJson mapping = Inl (MissingKeySelection sig) \<longrightarrow>
      sig \<in> signature ` set (fst (analyzeJsonStructures beforeJson)) \<and>
      sig \<in> signature ` set (fst (analyzeJsonStructures afterJson)) \<and>
      selectedKey mapping sig = None)
   \<and> ((\<exists>s. s \<in> signature ` set (fst (analyzeJsonStructures beforeJson)) \<and>
            s \<in> signature ` set (fst (analyzeJsonStructures afterJson)) \<and>
            selectedKey mapping s = None) \<longrightarrow>
       (\<exists>s. diff beforeJson afterJson mapping = Inl (MissingKeySelection s)))
   \<and> (\<not> (\<exists>s. s \<in> signature ` set (fst (analyzeJsonStructures beforeJson)) \<and>
            s \<in> signature ` set (fst (analyzeJsonStructures afterJson)) \<and>
            selectedKey mapping s = None) \<longrightarrow>
       (\<forall>s. diff beforeJson afterJson mapping \<noteq> Inl (MissingKeySelection s)))"
proof -
  let ?B = "fst (analyzeJsonStructures beforeJson)"
  let ?A = "fst (analyzeJsonStructures afterJson)"
  have named: "s \<in> signature ` set ?B \<and> s \<in> signature ` set ?A \<and> selectedKey mapping s = None"
    if d: "diff beforeJson afterJson mapping = Inl (MissingKeySelection s)" for s
  proof -
    from d obtain bs as where b: "beforeJson = JArr bs" and a: "afterJson = JArr as"
      by (auto simp: diff_def compareJsons_def split: json.splits)
    from d b a have "missingKeySelection ?B ?A mapping bs as = Some s"
      by (auto simp: diff_def compareJsons_def split: option.splits)
    then show ?thesis by (rule missingKeySelection_SomeD)
  qed
  have fails: "\<exists>s'. diff beforeJson afterJson mapping = Inl (MissingKeySelection s')"
    if sb: "s \<in> signature ` set ?B" and sa: "s \<in> signature ` set ?A"
      and n: "selectedKey mapping s = None" for s
  proof -
    from inventory_is_array [OF sb] obtain bs where b: "beforeJson = JArr bs" by blast
    from inventory_is_array [OF sa] obtain as where a: "afterJson = JArr as" by blast
    from sb b have act: "s \<in> set (activeSignatures bs as)" by (simp add: inventory_active)
    have "missingKeySelection ?B ?A mapping bs as \<noteq> None"
      unfolding missingKeySelection_def find_None_iff list_ex_signature
      using act sb sa n by blast
    then obtain s' where "missingKeySelection ?B ?A mapping bs as = Some s'" by auto
    with a b show ?thesis by (auto simp: diff_def compareJsons_def)
  qed
  from named fails show ?thesis by blast
qed

theorem gate_fails_on_falsy_read_witness:
  "diff (JArr [recAlice]) (JArr [recAlicia]) Map.empty = Inl (MissingKeySelection (lit ''id,name''))
   \<and> (lit ''id,name'') \<in> signature ` set (fst (analyzeJsonStructures (JArr [recAlice])))
   \<and> (lit ''id,name'') \<in> signature ` set (fst (analyzeJsonStructures (JArr [recAlicia])))
   \<and> selectedKey Map.empty (lit ''id,name'') = None
   \<and> (\<exists>s. diff (JArr [recAlice]) (JArr [recAlicia]) Map.empty = Inl (MissingKeySelection s))
   \<and> (\<forall>s. diff (JArr [recAlice]) (JArr [recSku]) Map.empty \<noteq> Inl (MissingKeySelection s))"
proof -
  have d: "diff (JArr [recAlice]) (JArr [recAlicia]) Map.empty = Inl (MissingKeySelection (lit ''id,name''))"
    by code_simp
  have iB: "fst (analyzeJsonStructures (JArr [recAlice])) =
      [\<lparr>signature = lit ''id,name'', keys = [lit ''id'', lit ''name''], count = 1,
        potentialKeyFields = [lit ''id'', lit ''name'']\<rparr>]"
    by code_simp
  have iA: "fst (analyzeJsonStructures (JArr [recSku])) =
      [\<lparr>signature = lit ''sku'', keys = [lit ''sku''], count = 1, potentialKeyFields = [lit ''sku'']\<rparr>]"
    by code_simp
  have no: "\<not> (\<exists>s. s \<in> signature ` set (fst (analyzeJsonStructures (JArr [recAlice]))) \<and>
                   s \<in> signature ` set (fst (analyzeJsonStructures (JArr [recSku]))) \<and>
                   selectedKey Map.empty s = None)"
    by (simp add: iB iA lit_def)
  from d gate_fails_on_falsy_read [of "JArr [recAlice]" "JArr [recAlicia]" Map.empty "(lit ''id,name'')"]
  have one: "(lit ''id,name'') \<in> signature ` set (fst (analyzeJsonStructures (JArr [recAlice])))
      \<and> (lit ''id,name'') \<in> signature ` set (fst (analyzeJsonStructures (JArr [recAlicia])))
      \<and> selectedKey Map.empty (lit ''id,name'') = None
      \<and> (\<exists>s. diff (JArr [recAlice]) (JArr [recAlicia]) Map.empty = Inl (MissingKeySelection s))"
    by blast
  from no gate_fails_on_falsy_read [of "JArr [recAlice]" "JArr [recSku]" Map.empty "(lit ''id,name'')"]
  have two: "\<forall>s. diff (JArr [recAlice]) (JArr [recSku]) Map.empty \<noteq> Inl (MissingKeySelection s)"
    by blast
  from d one two show ?thesis by blast
qed

text \<open>
  C6.  The read is not falsy for every signature without an entry.  The records
  \<^verbatim>\<open>{"constructor":1}\<close> before and \<^verbatim>\<open>{"constructor":2}\<close> after have the signature
  \<^verbatim>\<open>constructor\<close>, which is in both inventories and has no entry in the empty key mapping.
  The read \<^verbatim>\<open>selectedKeyConfig["constructor"]\<close> finds the function that every plain object
  inherits, so the validation passes and the comparison returns a result: nothing new,
  modified or deleted, and two warnings about a key field named after the function.
\<close>

theorem inherited_member_passes_gate:
  "map signature (fst (analyzeJsonStructures (JArr [recCtor1]))) = [lit ''constructor'']
   \<and> map signature (fst (analyzeJsonStructures (JArr [recCtor2]))) = [lit ''constructor'']
   \<and> (Map.empty :: SelectedKeyConfig) (lit ''constructor'') = None
   \<and> diff (JArr [recCtor1]) (JArr [recCtor2]) Map.empty =
       Inr \<lparr>newEntries = [], modifiedEntries = [], deletedEntries = [],
            errors =
              [InvalidKeyValue Before (lit ''function Object() { [native code] }'')
                 (lit ''constructor'') None,
               InvalidKeyValue After (lit ''function Object() { [native code] }'')
                 (lit ''constructor'') None]\<rparr>"
  by code_simp

section \<open>Records with an invalid key value\<close>







text \<open>An invalid key value is one that is missing, not a string, or blank.\<close>

lemma validKeyValue_None_iff:
  "validKeyValue x kf = None \<longleftrightarrow>
     getProp x kf = None
     \<or> (\<exists>v. getProp x kf = Some v \<and> (\<forall>s. v \<noteq> JStr s))
     \<or> (\<exists>s. getProp x kf = Some (JStr s) \<and> trimIsEmpty s)"
  by (auto simp: validKeyValue_def split: option.splits json.splits)



section \<open>The key field of a modified entry\<close>

text \<open>
  For every modified entry, the key field selected for the signature of its before and
  after record, under which both hold the entry's key value, has no entry in \<open>changed\<close>.
  It is the key field the entry reports whenever the entry reports the signature of its
  own after record.
\<close>

theorem paired_key_field_not_in_changed:
  assumes "diff beforeJson afterJson conf = Inr r"
    and "m \<in> set (modifiedEntries r)"
  shows "\<exists>kf. selectedKey conf (getObjectSignature (before m)) = Some kf
            \<and> selectedKey conf (getObjectSignature (after m)) = Some kf
            \<and> getProp (before m) kf = Some (JStr (keyFieldValue m))
            \<and> getProp (after m) kf = Some (JStr (keyFieldValue m))
            \<and> map_of (changed (changes m)) kf = None
            \<and> (modObjectSignature m = getObjectSignature (after m) \<longrightarrow> modKeyFieldUsed m = kf)"
proof -
  from assms(1) obtain bs as where r: "r = classify conf bs as"
    by (rule diff_Inr)
  from assms(2) r obtain be ae
    where be: "beforeLookup conf bs (keyFieldValue m) = Some be"
      and ae: "afterLookup conf as (keyFieldValue m) = Some ae"
      and sig: "entrySignature be = entrySignature ae"
      and m: "before m = item be" "after m = item ae"
        "changes m = calculateFieldChanges (item be) (item ae)"
      and used: "selectedKey conf (modObjectSignature m) = Some (modKeyFieldUsed m)"
    by (auto elim: modified_sound)
  from be validMap_beforeLookup [of conf bs]
  have vb: "validEntry conf (set bs) (keyFieldValue m) be" by (simp add: validMap_def)
  from ae validMap_afterLookup [of conf as]
  have va: "validEntry conf (set as) (keyFieldValue m) ae" by (simp add: validMap_def)
  have kf: "keyField be = keyField ae"
    using validEntry_keyField [OF vb] validEntry_keyField [OF va] sig by simp
  have gb: "getProp (item be) (keyField ae) = Some (JStr (keyFieldValue m))"
    using validEntry_lookup [OF vb] kf by simp
  have ga: "getProp (item ae) (keyField ae) = Some (JStr (keyFieldValue m))"
    using validEntry_lookup [OF va] by simp
  have "map_of (changed (changes m)) (keyField ae) = None"
    by (simp add: m changed_calculate gb ga)
  moreover have "selectedKey conf (getObjectSignature (item be)) = Some (keyField ae)"
    using validEntry_keyField [OF vb] validEntry_signature [OF vb] kf by simp
  moreover have "selectedKey conf (getObjectSignature (item ae)) = Some (keyField ae)"
    using validEntry_keyField [OF va] validEntry_signature [OF va] by simp
  ultimately show ?thesis using gb ga used m by auto
qed

theorem paired_key_field_not_in_changed_witness:
  "diff (JArr [recAlice]) (JArr [recAlicia]) keyedById =
     Inr \<lparr>newEntries = [], modifiedEntries = [modAlice], deletedEntries = [], errors = []\<rparr>
   \<and> (\<exists>kf. selectedKey keyedById (getObjectSignature (before modAlice)) = Some kf
            \<and> selectedKey keyedById (getObjectSignature (after modAlice)) = Some kf
            \<and> getProp (before modAlice) kf = Some (JStr (keyFieldValue modAlice))
            \<and> getProp (after modAlice) kf = Some (JStr (keyFieldValue modAlice))
            \<and> map_of (changed (changes modAlice)) kf = None
            \<and> modKeyFieldUsed modAlice = kf)"
proof -
  have d: "diff (JArr [recAlice]) (JArr [recAlicia]) keyedById =
     Inr \<lparr>newEntries = [], modifiedEntries = [modAlice], deletedEntries = [], errors = []\<rparr>"
    by code_simp
  have m: "modAlice \<in> set (modifiedEntries
      \<lparr>newEntries = [], modifiedEntries = [modAlice], deletedEntries = [], errors = []\<rparr>)"
    by simp
  have s: "modObjectSignature modAlice = getObjectSignature (after modAlice)"
    by code_simp
  from paired_key_field_not_in_changed [OF d m] s d show ?thesis by blast
qed

text \<open>
  C8.  Before: \<^verbatim>\<open>[{"name":"k","id":1}]\<close>; after: \<^verbatim>\<open>[{"id":"k","x":1},{"name":"k","id":2}]\<close>;
  every key field is the one that the component selects by itself, \<^verbatim>\<open>id\<close> for the signature
  \<^verbatim>\<open>id,x\<close> and \<^verbatim>\<open>name\<close> for \<^verbatim>\<open>id,name\<close>.  Both after records have the key value \<^verbatim>\<open>k\<close>, and the
  lookup holds the later one.  Reading the first after record, the loop pairs the two
  records of signature \<^verbatim>\<open>id,name\<close> and reports the pair under the key field \<^verbatim>\<open>id\<close> of the
  record it was reading: the modified entry names \<^verbatim>\<open>id\<close> as its key field, and \<open>changed\<close>
  has an entry for \<^verbatim>\<open>id\<close>.
\<close>

theorem reported_key_field_in_changed:
  "autoSelected (JArr [recNameK1]) (JArr [recKX, recNameK2]) (lit ''id,x'') = Some (lit ''id'')
   \<and> autoSelected (JArr [recNameK1]) (JArr [recKX, recNameK2]) (lit ''id,name'') =
       Some (lit ''name'')
   \<and> diff (JArr [recNameK1]) (JArr [recKX, recNameK2])
         (autoSelected (JArr [recNameK1]) (JArr [recKX, recNameK2])) =
       Inr \<lparr>newEntries = [],
            modifiedEntries =
              [\<lparr>keyFieldValue = lit ''k'', modKeyFieldUsed = lit ''id'',
                modObjectSignature = lit ''id,x'',
                before = recNameK1, after = recNameK2,
                changes =
                  \<lparr>added = [], removed = [], changed = [(lit ''id'', JNum 1, JNum 2)]\<rparr>\<rparr>,
               \<lparr>keyFieldValue = lit ''k'', modKeyFieldUsed = lit ''name'',
                modObjectSignature = lit ''id,name'',
                before = recNameK1, after = recNameK2,
                changes =
                  \<lparr>added = [], removed = [], changed = [(lit ''id'', JNum 1, JNum 2)]\<rparr>\<rparr>],
            deletedEntries = [],
            errors = [DuplicateKey After (lit ''k'') (lit ''name'') (lit ''id,name'')]\<rparr>"
  by code_simp

section \<open>The order of the fields of a record\<close>

text \<open>
  C9.  The identity of a listed entry is its signature, the separator \<^verbatim>\<open>::\<close> and either the
  key value or, for a signature without a key field, the serialization of the entry.
  The record \<^verbatim>\<open>{"a::":1,"b":2}\<close> has the signature \<^verbatim>\<open>a::,b\<close> and no key field; the record
  \<^verbatim>\<open>{"a":",b::{\"a::\":1,\"b\":2,\"objectSignature\":\"a::,b\"}"}\<close> has the signature \<^verbatim>\<open>a\<close>, the key
  field \<^verbatim>\<open>a\<close> (selected by the component itself), and a key value that makes its identity
  the same text as that of the first record.  Compared with the empty input, the two
  records leave one new entry, the second record.  With the fields of the first record in
  the other order, \<^verbatim>\<open>{"b":2,"a::":1}\<close>, the serialization and so the identity of its entry are
  different, and both records are new entries.  The two inputs are equal as mappings from
  field names to values and the key mapping is the same, yet the first record is a new
  entry in one run and in no list in the other.
\<close>

theorem field_order_changes_membership:
  "isEqual recColons recColonsRev
   \<and> autoSelected (JArr []) (JArr [recColons, recCollide]) (lit ''a'') = Some (lit ''a'')
   \<and> autoSelected (JArr []) (JArr [recColons, recCollide]) (lit ''a::,b'') = None
   \<and> makeEntryId [lit ''a'' \<mapsto> lit ''a'']
         \<lparr>entryItem = recColons, objectSignature = lit ''a::,b'', keyFieldUsed = None\<rparr> =
       makeEntryId [lit ''a'' \<mapsto> lit ''a'']
         \<lparr>entryItem = recCollide, objectSignature = lit ''a'', keyFieldUsed = Some (lit ''a'')\<rparr>
   \<and> diff (JArr []) (JArr [recColons, recCollide]) [lit ''a'' \<mapsto> lit ''a''] =
       Inr \<lparr>newEntries =
              [\<lparr>entryItem = recCollide, objectSignature = lit ''a'',
                keyFieldUsed = Some (lit ''a'')\<rparr>],
            modifiedEntries = [], deletedEntries = [], errors = []\<rparr>
   \<and> diff (JArr []) (JArr [recColonsRev, recCollide]) [lit ''a'' \<mapsto> lit ''a''] =
       Inr \<lparr>newEntries =
              [\<lparr>entryItem = recColonsRev, objectSignature = lit ''a::,b'', keyFieldUsed = None\<rparr>,
               \<lparr>entryItem = recCollide, objectSignature = lit ''a'',
                keyFieldUsed = Some (lit ''a'')\<rparr>],
            modifiedEntries = [], deletedEntries = [], errors = []\<rparr>"
  by code_simp

section \<open>Array elements of the input\<close>

text \<open>
  C10.  An element of the input array that is itself an array is accepted as a record
  whose field names are its indices: shape analysis of \<^verbatim>\<open>[[1,2]]\<close> reports one structure
  with signature \<^verbatim>\<open>0,1\<close> and no error, and the comparison of \<^verbatim>\<open>[]\<close> with \<^verbatim>\<open>[[1,2]]\<close> lists the
  element as a new entry of that signature and raises no warning.
\<close>

theorem array_element_is_a_record:
  "analyzeJsonStructures (JArr [JArr [JNum 1, JNum 2]]) =
     ([\<lparr>signature = lit ''0,1'', keys = [lit ''0'', lit ''1''], count = 1, potentialKeyFields = []\<rparr>], None)
   \<and> diff (JArr []) (JArr [JArr [JNum 1, JNum 2]]) Map.empty =
     Inr \<lparr>newEntries =
            [\<lparr>entryItem = JArr [JNum 1, JNum 2], objectSignature = lit ''0,1'', keyFieldUsed = None\<rparr>],
          modifiedEntries = [], deletedEntries = [], errors = []\<rparr>"
  by code_simp

section \<open>Modified entries in the single-key comparator\<close>

text \<open>
  In the single-key comparator, re-applying the change set of a modified entry to its
  before record gives the after record, provided that neither record has a field named
  \<^verbatim>\<open>__proto__\<close> and that no array is paired with a record that lists a field named
  \<^verbatim>\<open>length\<close>.
\<close>

theorem single_key_field_change_completeness:
  assumes "compareJsons_single kf beforeJson afterJson = Inr r"
    and "wellFormed beforeJson" and "wellFormed afterJson"
    and "m \<in> set (modifiedEntries_single r)"
    and "\<not> hiddenLength (before_single m) (after_single m)"
    and "\<not> hiddenLength (after_single m) (before_single m)"
    and "lit ''__proto__'' \<notin>
           set (objectKeys (before_single m)) \<union> set (objectKeys (after_single m))"
  shows "isEqual (JObj (applyChanges (changes_single m) (ownFields (before_single m))))
           (JObj (ownFields (after_single m)))"
proof -
  from assms(1,4) obtain bs as where b: "beforeJson = JArr bs" and a: "afterJson = JArr as"
    and mb: "before_single m \<in> set bs" and ma: "after_single m \<in> set as"
    and ch: "changes_single m = calculateFieldChanges (before_single m) (after_single m)"
    by (rule compareJsons_single_modified)
  have wb: "wellFormed (before_single m)"
    using mb assms(2) b by (auto intro: wellFormed_item)
  have wa: "wellFormed (after_single m)"
    using ma assms(3) a by (auto intro: wellFormed_item)
  have own: "getProp (before_single m) k = map_of (ownFields (before_single m)) k \<and>
      getProp (after_single m) k = map_of (ownFields (after_single m)) k"
    if "k \<in> set (objectKeys (before_single m)) \<union> set (objectKeys (after_single m))" for k
    using hiddenLength_own [OF assms(5) that] hiddenLength_own [OF assms(6), of k] that
    by auto
  show ?thesis unfolding ch using own assms(7) wb wa by (rule reapply_changes_own)
qed

theorem single_key_field_change_completeness_witness:
  "compareJsons_single (lit ''name'') (JArr [recTom]) (JArr [recTomLater]) =
     Inr \<lparr>newEntries_single = [], modifiedEntries_single = [modTom],
          deletedEntries_single = []\<rparr>
   \<and> wellFormed (JArr [recTom]) \<and> wellFormed (JArr [recTomLater])
   \<and> \<not> hiddenLength (before_single modTom) (after_single modTom)
   \<and> \<not> hiddenLength (after_single modTom) (before_single modTom)
   \<and> lit ''__proto__'' \<notin>
         set (objectKeys (before_single modTom)) \<union> set (objectKeys (after_single modTom))
   \<and> isEqual (JObj (applyChanges (changes_single modTom) (ownFields (before_single modTom))))
         (JObj (ownFields (after_single modTom)))"
proof -
  have d: "compareJsons_single (lit ''name'') (JArr [recTom]) (JArr [recTomLater]) =
     Inr \<lparr>newEntries_single = [], modifiedEntries_single = [modTom],
          deletedEntries_single = []\<rparr>"
    by code_simp
  have w1: "wellFormed (JArr [recTom])" by code_simp
  have w2: "wellFormed (JArr [recTomLater])" by code_simp
  have h1: "\<not> hiddenLength (before_single modTom) (after_single modTom)" by code_simp
  have h2: "\<not> hiddenLength (after_single modTom) (before_single modTom)" by code_simp
  have m: "modTom \<in> set (modifiedEntries_single
      \<lparr>newEntries_single = [], modifiedEntries_single = [modTom],
       deletedEntries_single = []\<rparr>)"
    by simp
  have p: "lit ''__proto__'' \<notin>
      set (objectKeys (before_single modTom)) \<union> set (objectKeys (after_single modTom))"
    by code_simp
  from single_key_field_change_completeness [OF d w1 w2 m h1 h2 p] d w1 w2 h1 h2 p
  show ?thesis by simp
qed

text \<open>
  The second proviso is needed as the first is.  With the key field \<^verbatim>\<open>0\<close>, the record
  \<^verbatim>\<open>{"0":"k","length":1,"x":1}\<close> is matched with the array \<^verbatim>\<open>["k"]\<close>.  The array owns
  \<^verbatim>\<open>length\<close> with the value 1, so the field is neither removed nor changed, and re-applying
  the change set leaves a field \<^verbatim>\<open>length\<close> that the array does not list.
\<close>

lemma single_key_hidden_length_example:
  "compareJsons_single (lit ''0'') (JArr [recLengthField]) (JArr [JArr [JStr (lit ''k'')]]) =
     Inr \<lparr>newEntries_single = [], modifiedEntries_single = [modLengthField],
          deletedEntries_single = []\<rparr>
   \<and> hiddenLength (after_single modLengthField) (before_single modLengthField)
   \<and> applyChanges (changes_single modLengthField) (ownFields (before_single modLengthField)) =
       [(lit ''0'', JStr (lit ''k'')), (lit ''length'', JNum 1)]
   \<and> ownFields (after_single modLengthField) = [(lit ''0'', JStr (lit ''k''))]"
  by code_simp

text \<open>
  In the single-key comparator the key field, under which the before and the after
  record of a modified entry hold the entry's key value, has no entry in \<open>changed\<close>.
\<close>

theorem single_key_field_not_in_changed:
  assumes "compareJsons_single kf beforeJson afterJson = Inr r"
    and "m \<in> set (modifiedEntries_single r)"
  shows "getProp (before_single m) kf = Some (JStr (keyFieldValue_single m))
       \<and> getProp (after_single m) kf = Some (JStr (keyFieldValue_single m))
       \<and> map_of (changed (changes_single m)) kf = None"
proof -
  from assms obtain
    gb: "getProp (before_single m) kf = Some (JStr (keyFieldValue_single m))"
    and ga: "getProp (after_single m) kf = Some (JStr (keyFieldValue_single m))"
    and ch: "changes_single m = calculateFieldChanges (before_single m) (after_single m)"
    by (rule compareJsons_single_modified)
  have "map_of (changed (changes_single m)) kf = None"
    by (simp add: ch changed_calculate gb ga)
  with gb ga show ?thesis by simp
qed

theorem single_key_field_not_in_changed_witness:
  "compareJsons_single (lit ''name'') (JArr [recTom]) (JArr [recTomLater]) =
     Inr \<lparr>newEntries_single = [], modifiedEntries_single = [modTom],
          deletedEntries_single = []\<rparr>
   \<and> getProp (before_single modTom) (lit ''name'') = Some (JStr (keyFieldValue_single modTom))
   \<and> getProp (after_single modTom) (lit ''name'') = Some (JStr (keyFieldValue_single modTom))
   \<and> map_of (changed (changes_single modTom)) (lit ''name'') = None"
proof -
  have d: "compareJsons_single (lit ''name'') (JArr [recTom]) (JArr [recTomLater]) =
     Inr \<lparr>newEntries_single = [], modifiedEntries_single = [modTom],
          deletedEntries_single = []\<rparr>"
    by code_simp
  have m: "modTom \<in> set (modifiedEntries_single
      \<lparr>newEntries_single = [], modifiedEntries_single = [modTom],
       deletedEntries_single = []\<rparr>)"
    by simp
  from single_key_field_not_in_changed [OF d m] d show ?thesis by simp
qed

end
